theory Spec2Isabelle
  imports
    Complex_Main
    "HOL-Library.Char_ord"
    "HOL-Library.List_Lexorder"
    "HOL-Library.Product_Lexorder"
    "HOL-Library.AList"
begin

section \<open>The transport network\<close>

text \<open>
  The program keeps its network in a \<^verbatim>\<open>networkx.Graph\<close>: an insertion-ordered
  dictionary from each stop to an insertion-ordered dictionary from each neighbouring stop
  to the attribute dictionary of the route between them.  Dictionaries whose order is
  observable (iteration over stops, neighbours and edges) are association lists here.
  The type of the attribute values is a parameter: \<open>'n graph\<close> is the network with
  integer attributes, as the fixture has them.
\<close>

type_synonym 'v attrs = "(string \<times> 'v) list"

type_synonym ('n, 'v) network = "('n \<times> ('n \<times> 'v attrs) list) list"

type_synonym edge_data = "int attrs"

type_synonym 'n graph = "('n, int) network"

text \<open>The exceptions the core can meet: \<^verbatim>\<open>NetworkXError\<close> (raised by
  \<^verbatim>\<open>graph.neighbors(n)\<close> for a stop that is not in the graph), Python's
  \<^verbatim>\<open>KeyError\<close> (a missing dictionary key), \<^verbatim>\<open>OverflowError\<close> (an int too large
  to convert to a float, in arithmetic that mixes the two) and \<^verbatim>\<open>IndexError\<close>
  (\<^verbatim>\<open>heappop\<close> of an empty heap).\<close>

datatype error = NetworkXError | KeyError | OverflowError | IndexError

text \<open>The weight component of the result is a number or \<^verbatim>\<open>float("inf")\<close>.\<close>

datatype weight = Fin int | Infinity

definition nodes :: "('n, 'v) network \<Rightarrow> 'n list" where
  "nodes g = map fst g"

definition has_node :: "('n, 'v) network \<Rightarrow> 'n \<Rightarrow> bool" where
  "has_node g n = (n \<in> set (nodes g))"

text \<open>\<^verbatim>\<open>G.add_edge(u, v, **attr)\<close>: both stops are created when absent, the
  route's attribute dictionary is fetched (or created), updated with the given attributes
  and stored under both directions.\<close>

definition add_node :: "'n \<Rightarrow> ('n, 'v) network \<Rightarrow> ('n, 'v) network" where
  "add_node n g = (if has_node g n then g else g @ [(n, [])])"

definition get_edge_data :: "('n, 'v) network \<Rightarrow> 'n \<Rightarrow> 'n \<Rightarrow> 'v attrs option" where
  "get_edge_data g u v = (case map_of g u of None \<Rightarrow> None | Some nbrs \<Rightarrow> map_of nbrs v)"

definition set_adj :: "'n \<Rightarrow> 'n \<Rightarrow> 'v attrs \<Rightarrow> ('n, 'v) network \<Rightarrow> ('n, 'v) network" where
  "set_adj u v d g = AList.map_entry u (AList.update v d) g"

definition add_edge :: "'n \<Rightarrow> 'n \<Rightarrow> 'v attrs \<Rightarrow> ('n, 'v) network \<Rightarrow> ('n, 'v) network" where
  "add_edge u v attr g =
     (let g1 = add_node v (add_node u g);
          datadict = (case get_edge_data g1 u v of None \<Rightarrow> [] | Some d \<Rightarrow> d);
          datadict' = fold (\<lambda>(k, x). AList.update k x) attr datadict
      in set_adj v u datadict' (set_adj u v datadict' g1))"

definition routes :: "(string \<times> string \<times> int \<times> int \<times> int) list" where
  "routes =
     [(''A'', ''B'', 10, 5, 3),
      (''A'', ''C'', 15, 4, 5),
      (''B'', ''D'', 12, 6, 4),
      (''C'', ''D'', 8, 3, 2),
      (''C'', ''E'', 10, 5, 4),
      (''D'', ''E'', 6, 2, 1),
      (''D'', ''F'', 15, 6, 5),
      (''E'', ''F'', 8, 3, 2)]"

definition build_transport_graph :: "string graph" where
  "build_transport_graph =
     fold (\<lambda>(u, v, time, cost, distance).
             add_edge u v [(''time'', time), (''cost'', cost), (''distance'', distance)])
          routes []"

section \<open>Validation\<close>

text \<open>\<^verbatim>\<open>number_of_nodes\<close> is the size of the node dictionary;
  \<^verbatim>\<open>number_of_edges\<close> is half the sum of the degrees, where a self-loop counts twice
  in the degree of its stop.\<close>

definition number_of_nodes :: "'n graph \<Rightarrow> nat" where
  "number_of_nodes g = length g"

definition degree :: "'n \<times> ('n \<times> edge_data) list \<Rightarrow> nat" where
  "degree e = length (snd e) + (if fst e \<in> set (map fst (snd e)) then 1 else 0)"

definition number_of_edges :: "'n graph \<Rightarrow> nat" where
  "number_of_edges g = sum_list (map degree g) div 2"

text \<open>\<^verbatim>\<open>graph.edges(data=True)\<close> walks the adjacency in order and reports a route
  from the first of its two stops only: neighbours already walked are skipped.\<close>

fun edges_from :: "'n list \<Rightarrow> 'n graph \<Rightarrow> ('n \<times> 'n \<times> edge_data) list" where
  "edges_from seen [] = []"
| "edges_from seen ((n, nbrs) # rest) =
     map (\<lambda>(nbr, dd). (n, nbr, dd)) (filter (\<lambda>(nbr, dd). nbr \<notin> set seen) nbrs)
     @ edges_from (seen @ [n]) rest"

definition edges :: "'n graph \<Rightarrow> ('n \<times> 'n \<times> edge_data) list" where
  "edges g = edges_from [] g"

definition has_key :: "string \<Rightarrow> edge_data \<Rightarrow> bool" where
  "has_key k data = (k \<in> set (map fst data))"

fun check_edges :: "(string \<times> string \<times> edge_data) list \<Rightarrow> (bool \<times> string) option" where
  "check_edges [] = None"
| "check_edges ((u, v, data) # rest) =
     (if \<not> has_key ''time'' data \<or> \<not> has_key ''cost'' data \<or> \<not> has_key ''distance'' data
      then Some (False, ''Missing weights on edge '' @ u @ '' - '' @ v)
      else check_edges rest)"

definition success_message :: string where
  "success_message =
     ''Graph validation successful. Module-1 output is complete and ready to be used by Module-2.''"

definition validate_graph :: "string graph \<Rightarrow> bool \<times> string" where
  "validate_graph graph =
     (if number_of_nodes graph = 0 then (False, ''Graph has no nodes'')
      else if number_of_edges graph = 0 then (False, ''Graph has no edges'')
      else (case check_edges (edges graph) of
              Some r \<Rightarrow> r
            | None \<Rightarrow> (True, success_message)))"

text \<open>What validation is stated about: a network without routes, the symmetry of the
  adjacency (\<^verbatim>\<open>add_edge\<close> stores one attribute dictionary under both directions), and
  routes that all carry the three attributes.\<close>

definition no_routes :: "'n graph \<Rightarrow> bool" where
  "no_routes g = (\<forall>(u, nbrs) \<in> set g. nbrs = [])"

definition symmetric_graph :: "'n graph \<Rightarrow> bool" where
  "symmetric_graph g = (\<forall>(u, nbrs) \<in> set g. \<forall>(v, d) \<in> set nbrs. get_edge_data g v u = Some d)"

definition fully_attributed :: "'n graph \<Rightarrow> bool" where
  "fully_attributed g =
     (\<forall>(u, nbrs) \<in> set g. \<forall>(v, d) \<in> set nbrs.
        has_key ''time'' d \<and> has_key ''cost'' d \<and> has_key ''distance'' d)"

section \<open>The path search\<close>

text \<open>
  This section is the search on Python ints: coefficients and attributes are integers,
  whose arithmetic is exact.  The search on arbitrary Python numbers, floats included,
  is a section of its own further down.

  A frontier entry is the tuple \<^verbatim>\<open>(current_cost, node, path)\<close>.  Python compares
  tuples, strings and lists lexicographically, which is the order the imported
  lexicographic instances give to \<open>int \<times> 'n \<times> 'n list\<close>.  That order is total, so
  \<^verbatim>\<open>heapq.heappop\<close> returns the least entry of the heap whatever its internal layout:
  the heap is kept as the list of its entries, \<open>heappush\<close> adds one and \<open>heappop\<close>
  takes the least one out.
\<close>

type_synonym 'n entry = "int \<times> 'n \<times> 'n list"

definition heappush :: "'n entry list \<Rightarrow> 'n entry \<Rightarrow> 'n entry list" where
  "heappush pq x = pq @ [x]"

definition heappop :: "('n::linorder) entry list \<Rightarrow> 'n entry \<times> 'n entry list" where
  "heappop pq = (Min (set pq), remove1 (Min (set pq)) pq)"

text \<open>\<^verbatim>\<open>graph.neighbors(node)\<close> and \<^verbatim>\<open>graph[node][neighbor]\<close>.\<close>

definition neighbors :: "('n, 'v) network \<Rightarrow> 'n \<Rightarrow> error + 'n list" where
  "neighbors g n = (case map_of g n of None \<Rightarrow> Inl NetworkXError | Some nbrs \<Rightarrow> Inr (map fst nbrs))"

definition getitem :: "('n, 'v) network \<Rightarrow> 'n \<Rightarrow> 'n \<Rightarrow> error + 'v attrs" where
  "getitem g u v = (case get_edge_data g u v of None \<Rightarrow> Inl KeyError | Some d \<Rightarrow> Inr d)"

text \<open>\<^verbatim>\<open>alpha * edge["time"] + beta * edge["cost"]\<close>, the time looked up first.\<close>

definition edge_weight :: "int \<Rightarrow> int \<Rightarrow> edge_data \<Rightarrow> error + int" where
  "edge_weight alpha beta edge =
     (case map_of edge ''time'' of
        None \<Rightarrow> Inl KeyError
      | Some t \<Rightarrow> (case map_of edge ''cost'' of
                     None \<Rightarrow> Inl KeyError
                   | Some c \<Rightarrow> Inr (alpha * t + beta * c)))"

text \<open>The \<^verbatim>\<open>for neighbor in graph.neighbors(node)\<close> loop over the neighbours left.\<close>

fun push_neighbors ::
  "'n graph \<Rightarrow> int \<Rightarrow> int \<Rightarrow> 'n set \<Rightarrow> int \<Rightarrow> 'n \<Rightarrow> 'n list \<Rightarrow> 'n list \<Rightarrow> 'n entry list
     \<Rightarrow> error + 'n entry list" where
  "push_neighbors g alpha beta visited current_cost node path [] pq = Inr pq"
| "push_neighbors g alpha beta visited current_cost node path (neighbor # rest) pq =
     (if neighbor \<notin> visited then
        (case getitem g node neighbor of
           Inl e \<Rightarrow> Inl e
         | Inr edge \<Rightarrow>
             (case edge_weight alpha beta edge of
                Inl e \<Rightarrow> Inl e
              | Inr weight \<Rightarrow>
                  push_neighbors g alpha beta visited current_cost node path rest
                    (heappush pq (current_cost + weight, neighbor, path))))
      else push_neighbors g alpha beta visited current_cost node path rest pq)"

text \<open>The \<^verbatim>\<open>while pq\<close> loop, one call per iteration.\<close>

function dijkstra_loop ::
  "('n::linorder) graph \<Rightarrow> 'n \<Rightarrow> int \<Rightarrow> int \<Rightarrow> 'n entry list \<Rightarrow> 'n set
     \<Rightarrow> error + (weight \<times> 'n list)" where
  "dijkstra_loop g destination alpha beta pq visited =
     (if pq = [] then Inr (Infinity, [])
      else
        (case heappop pq of
           ((current_cost, node, path), pq') \<Rightarrow>
             if node \<in> visited then dijkstra_loop g destination alpha beta pq' visited
             else if node = destination then Inr (Fin current_cost, path @ [node])
             else
               (case neighbors g node of
                  Inl e \<Rightarrow> Inl e
                | Inr nbrs \<Rightarrow>
                    (case push_neighbors g alpha beta (insert node visited) current_cost node
                            (path @ [node]) nbrs pq' of
                       Inl e \<Rightarrow> Inl e
                     | Inr pq'' \<Rightarrow>
                         dijkstra_loop g destination alpha beta pq'' (insert node visited)))))"
  by pat_completeness auto
termination
proof (relation "measures [\<lambda>(g, d, a, b, pq, visited). card (set (nodes g) - visited),
                           \<lambda>(g, d, a, b, pq, visited). length pq]", goal_cases)
  case 1
  then show ?case by simp
next
  case (2 g destination alpha beta pq visited x1 x2 current_cost y node path)
  then have "Min (set pq) \<in> set pq" by simp
  with 2 show ?case by (auto simp: heappop_def length_remove1)
next
  case (3 g destination alpha beta pq visited x1 x2 current_cost y node path nbrs pq'')
  then have "node \<in> set (nodes g)"
    by (auto simp: neighbors_def nodes_def split: option.splits
             dest!: map_of_SomeD intro: rev_image_eqI)
  with 3 have "card (set (nodes g) - insert node visited) < card (set (nodes g) - visited)"
    by (intro psubset_card_mono) auto
  then show ?case by simp
qed

declare dijkstra_loop.simps [simp del]

definition multi_criteria_dijkstra ::
  "('n::linorder) graph \<Rightarrow> 'n \<Rightarrow> 'n \<Rightarrow> int \<Rightarrow> int \<Rightarrow> error + (weight \<times> 'n list)" where
  "multi_criteria_dijkstra graph source destination alpha beta =
     dijkstra_loop graph destination alpha beta [(0, source, [])] {}"

section \<open>The search loop with an iteration budget\<close>

text \<open>The same loop, allowed at most \<open>n\<close> iterations of its body: \<open>None\<close> when the
  budget runs out before the loop returns.\<close>

fun dijkstra_loop_bounded ::
  "nat \<Rightarrow> ('n::linorder) graph \<Rightarrow> 'n \<Rightarrow> int \<Rightarrow> int \<Rightarrow> 'n entry list \<Rightarrow> 'n set
     \<Rightarrow> (error + (weight \<times> 'n list)) option" where
  "dijkstra_loop_bounded 0 g destination alpha beta pq visited =
     (if pq = [] then Some (Inr (Infinity, [])) else None)"
| "dijkstra_loop_bounded (Suc k) g destination alpha beta pq visited =
     (if pq = [] then Some (Inr (Infinity, []))
      else
        (case heappop pq of
           ((current_cost, node, path), pq') \<Rightarrow>
             if node \<in> visited then dijkstra_loop_bounded k g destination alpha beta pq' visited
             else if node = destination then Some (Inr (Fin current_cost, path @ [node]))
             else
               (case neighbors g node of
                  Inl e \<Rightarrow> Some (Inl e)
                | Inr nbrs \<Rightarrow>
                    (case push_neighbors g alpha beta (insert node visited) current_cost node
                            (path @ [node]) nbrs pq' of
                       Inl e \<Rightarrow> Some (Inl e)
                     | Inr pq'' \<Rightarrow>
                         dijkstra_loop_bounded k g destination alpha beta pq''
                           (insert node visited)))))"

definition multi_criteria_dijkstra_bounded ::
  "nat \<Rightarrow> ('n::linorder) graph \<Rightarrow> 'n \<Rightarrow> 'n \<Rightarrow> int \<Rightarrow> int \<Rightarrow> (error + (weight \<times> 'n list)) option" where
  "multi_criteria_dijkstra_bounded n graph source destination alpha beta =
     dijkstra_loop_bounded n graph destination alpha beta [(0, source, [])] {}"

text \<open>The number of frontier entries that can still be pushed: the adjacency entries of
  the stops not yet finalized.\<close>

definition out_degree :: "'n graph \<Rightarrow> 'n \<Rightarrow> nat" where
  "out_degree g n = (case map_of g n of None \<Rightarrow> 0 | Some nbrs \<Rightarrow> length nbrs)"

definition pending :: "'n graph \<Rightarrow> 'n set \<Rightarrow> nat" where
  "pending g V = sum_list (map (out_degree g) (filter (\<lambda>n. n \<notin> V) (remdups (nodes g))))"

definition iteration_bound :: "'n graph \<Rightarrow> nat" where
  "iteration_bound g = 1 + pending g {}"

section \<open>Python numbers\<close>

text \<open>
  A coefficient or an attribute may be any Python number: an \<^verbatim>\<open>int\<close>, unbounded and
  exact, or a \<^verbatim>\<open>float\<close>, an IEEE 754 binary64 value.  A finite float is kept as the
  rational number it denotes (the two zeros, which compare equal, are one value); the
  infinities and the not-a-number are separate values.
\<close>

datatype pyfloat = Finite rat | PosInf | NegInf | NaN

datatype number = PyInt int | PyFloat pyfloat

text \<open>Rounding a rational to the nearest float, ties to the even significand: the
  significand has 53 bits, the least exponent of the last place is \<open>-1074\<close>, and a
  result of magnitude \<open>2 ^ 1024\<close> or more is an infinity.  \<open>bit_length\<close> is
  \<^verbatim>\<open>int.bit_length\<close>, and \<open>floor_log2 x\<close> is the integer \<open>e\<close> with
  \<open>2 ^ e \<le> x < 2 ^ (e + 1)\<close> for a positive \<open>x\<close>.\<close>

function bit_length :: "int \<Rightarrow> int" where
  "bit_length n = (if n \<le> 0 then 0 else 1 + bit_length (n div 2))"
  by pat_completeness auto
termination
  by (relation "measure nat") auto

declare bit_length.simps [simp del]

definition pow2 :: "int \<Rightarrow> rat" where
  "pow2 e = (if 0 \<le> e then 2 ^ nat e else 1 / 2 ^ nat (- e))"

definition floor_log2 :: "rat \<Rightarrow> int" where
  "floor_log2 x =
     (let (p, q) = quotient_of x;
          d = bit_length p - bit_length q
      in if pow2 d \<le> x then d else d - 1)"

definition round_half_even :: "rat \<Rightarrow> int" where
  "round_half_even x =
     (let f = \<lfloor>x\<rfloor>; d = x - of_int f
      in if d < 1 / 2 then f else if 1 / 2 < d then f + 1 else if even f then f else f + 1)"

definition round_double :: "rat \<Rightarrow> pyfloat" where
  "round_double x =
     (if x = 0 then Finite 0
      else
        (let a = \<bar>x\<bar>;
             q = max (floor_log2 a - 52) (- 1074);
             r = of_int (round_half_even (a / pow2 q)) * pow2 q
         in if r \<noteq> 0 \<and> 1024 \<le> floor_log2 r then (if 0 < x then PosInf else NegInf)
            else Finite (if 0 < x then r else - r)))"

text \<open>Arithmetic.  Two ints are multiplied and added exactly.  When a float takes part,
  an int operand is first converted to the nearest float (\<^verbatim>\<open>OverflowError\<close> when it is
  too large), and the float operation rounds its exact result.\<close>

definition float_of_int :: "int \<Rightarrow> error + pyfloat" where
  "float_of_int i =
     (case round_double (of_int i) of Finite r \<Rightarrow> Inr (Finite r) | _ \<Rightarrow> Inl OverflowError)"

definition float_sign :: "pyfloat \<Rightarrow> int" where
  "float_sign f =
     (case f of
        Finite x \<Rightarrow> (if 0 < x then 1 else if x < 0 then - 1 else 0)
      | PosInf \<Rightarrow> 1
      | NegInf \<Rightarrow> - 1
      | NaN \<Rightarrow> 0)"

definition float_mul :: "pyfloat \<Rightarrow> pyfloat \<Rightarrow> pyfloat" where
  "float_mul f h =
     (if f = NaN \<or> h = NaN then NaN
      else
        (case (f, h) of
           (Finite x, Finite y) \<Rightarrow> round_double (x * y)
         | _ \<Rightarrow>
             (let s = float_sign f * float_sign h
              in if s = 0 then NaN else if 0 < s then PosInf else NegInf)))"

definition float_add :: "pyfloat \<Rightarrow> pyfloat \<Rightarrow> pyfloat" where
  "float_add f h =
     (if f = NaN \<or> h = NaN then NaN
      else
        (case (f, h) of
           (Finite x, Finite y) \<Rightarrow> round_double (x + y)
         | (Finite x, _) \<Rightarrow> h
         | (_, Finite y) \<Rightarrow> f
         | _ \<Rightarrow> (if f = h then f else NaN)))"

definition as_float :: "number \<Rightarrow> error + pyfloat" where
  "as_float x = (case x of PyInt i \<Rightarrow> float_of_int i | PyFloat f \<Rightarrow> Inr f)"

definition float_op ::
  "(pyfloat \<Rightarrow> pyfloat \<Rightarrow> pyfloat) \<Rightarrow> number \<Rightarrow> number \<Rightarrow> error + number" where
  "float_op f x y =
     (case as_float x of
        Inl e \<Rightarrow> Inl e
      | Inr a \<Rightarrow> (case as_float y of Inl e \<Rightarrow> Inl e | Inr b \<Rightarrow> Inr (PyFloat (f a b))))"

definition num_mul :: "number \<Rightarrow> number \<Rightarrow> error + number" where
  "num_mul x y =
     (case (x, y) of
        (PyInt a, PyInt b) \<Rightarrow> Inr (PyInt (a * b))
      | _ \<Rightarrow> float_op float_mul x y)"

definition num_add :: "number \<Rightarrow> number \<Rightarrow> error + number" where
  "num_add x y =
     (case (x, y) of
        (PyInt a, PyInt b) \<Rightarrow> Inr (PyInt (a + b))
      | _ \<Rightarrow> float_op float_add x y)"

text \<open>Comparison is by exact value, also between an int and a float; every comparison
  with the not-a-number is false.\<close>

definition num_key :: "number \<Rightarrow> (int \<times> rat) option" where
  "num_key x =
     (case x of
        PyInt i \<Rightarrow> Some (0, of_int i)
      | PyFloat (Finite r) \<Rightarrow> Some (0, r)
      | PyFloat PosInf \<Rightarrow> Some (1, 0)
      | PyFloat NegInf \<Rightarrow> Some (- 1, 0)
      | PyFloat NaN \<Rightarrow> None)"

definition num_lt :: "number \<Rightarrow> number \<Rightarrow> bool" where
  "num_lt x y = (case (num_key x, num_key y) of (Some a, Some b) \<Rightarrow> a < b | _ \<Rightarrow> False)"

definition num_eq :: "number \<Rightarrow> number \<Rightarrow> bool" where
  "num_eq x y = (case (num_key x, num_key y) of (Some a, Some b) \<Rightarrow> a = b | _ \<Rightarrow> False)"

section \<open>The heap of \<^verbatim>\<open>heapq\<close>\<close>

text \<open>
  \<^verbatim>\<open>heapq\<close> keeps the heap in a list and only ever asks whether one item is less than
  another: \<^verbatim>\<open>_siftdown\<close> moves an item towards the root, \<^verbatim>\<open>_siftup\<close> moves the
  smaller child up until a leaf is reached and then sifts the displaced item down from
  there.  The functions below are those loops, with the comparison as a parameter, so
  that they say what happens under any comparison, total or not.  Tuples are compared
  at the first component where they differ.
\<close>

type_synonym 'n num_entry = "number \<times> 'n \<times> 'n list"

definition entry_lt :: "('n::linorder) num_entry \<Rightarrow> 'n num_entry \<Rightarrow> bool" where
  "entry_lt x y =
     (case (x, y) of
        ((c1, n1, p1), (c2, n2, p2)) \<Rightarrow>
          if \<not> num_eq c1 c2 then num_lt c1 c2
          else if n1 \<noteq> n2 then n1 < n2
          else p1 < p2)"

function siftdown_loop :: "('a \<Rightarrow> 'a \<Rightarrow> bool) \<Rightarrow> 'a \<Rightarrow> nat \<Rightarrow> 'a list \<Rightarrow> nat \<Rightarrow> 'a list" where
  "siftdown_loop lt newitem startpos heap pos =
     (if pos > startpos then
        (let parentpos = (pos - 1) div 2;
             parent = heap ! parentpos
         in if lt newitem parent
            then siftdown_loop lt newitem startpos (heap[pos := parent]) parentpos
            else heap[pos := newitem])
      else heap[pos := newitem])"
  by pat_completeness auto
termination
  by (relation "measure (\<lambda>(lt, newitem, startpos, heap, pos). pos)") auto

declare siftdown_loop.simps [simp del]

definition siftdown :: "('a \<Rightarrow> 'a \<Rightarrow> bool) \<Rightarrow> 'a list \<Rightarrow> nat \<Rightarrow> nat \<Rightarrow> 'a list" where
  "siftdown lt heap startpos pos = siftdown_loop lt (heap ! pos) startpos heap pos"

function siftup_loop :: "('a \<Rightarrow> 'a \<Rightarrow> bool) \<Rightarrow> nat \<Rightarrow> 'a list \<Rightarrow> nat \<Rightarrow> 'a list \<times> nat" where
  "siftup_loop lt endpos heap pos =
     (let childpos = 2 * pos + 1
      in if childpos < endpos then
           (let rightpos = childpos + 1;
                childpos = (if rightpos < endpos \<and> \<not> lt (heap ! childpos) (heap ! rightpos)
                            then rightpos else childpos)
            in siftup_loop lt endpos (heap[pos := heap ! childpos]) childpos)
         else (heap, pos))"
  by pat_completeness auto
termination
  by (relation "measure (\<lambda>(lt, endpos, heap, pos). endpos - pos)") auto

declare siftup_loop.simps [simp del]

definition siftup :: "('a \<Rightarrow> 'a \<Rightarrow> bool) \<Rightarrow> 'a list \<Rightarrow> nat \<Rightarrow> 'a list" where
  "siftup lt heap pos =
     (let endpos = length heap;
          startpos = pos;
          newitem = heap ! pos;
          (heap', pos') = siftup_loop lt endpos heap pos
      in siftdown lt (heap'[pos' := newitem]) startpos pos')"

definition heapq_heappush :: "('a \<Rightarrow> 'a \<Rightarrow> bool) \<Rightarrow> 'a list \<Rightarrow> 'a \<Rightarrow> 'a list" where
  "heapq_heappush lt heap item = siftdown lt (heap @ [item]) 0 (length heap)"

definition heapq_heappop :: "('a \<Rightarrow> 'a \<Rightarrow> bool) \<Rightarrow> 'a list \<Rightarrow> error + 'a \<times> 'a list" where
  "heapq_heappop lt heap =
     (if heap = [] then Inl IndexError
      else
        (let lastelt = last heap;
             heap' = butlast heap
         in if heap' \<noteq> [] then Inr (heap' ! 0, siftup lt (heap'[0 := lastelt]) 0)
            else Inr (lastelt, [])))"

section \<open>The path search on Python numbers\<close>

text \<open>
  The same search with coefficients and attributes that are Python numbers.  The products
  and sums are evaluated in the order of the source; the frontier is the \<^verbatim>\<open>heapq\<close>
  list.  The loop is a partial function: \<open>None\<close> stands for a search that does not
  return.
\<close>

definition edge_weight_num :: "number \<Rightarrow> number \<Rightarrow> number attrs \<Rightarrow> error + number" where
  "edge_weight_num alpha beta edge =
     (case map_of edge ''time'' of
        None \<Rightarrow> Inl KeyError
      | Some t \<Rightarrow>
          (case num_mul alpha t of
             Inl e \<Rightarrow> Inl e
           | Inr time_term \<Rightarrow>
               (case map_of edge ''cost'' of
                  None \<Rightarrow> Inl KeyError
                | Some c \<Rightarrow>
                    (case num_mul beta c of
                       Inl e \<Rightarrow> Inl e
                     | Inr cost_term \<Rightarrow> num_add time_term cost_term))))"

fun push_neighbors_num ::
  "(('n::linorder), number) network \<Rightarrow> number \<Rightarrow> number \<Rightarrow> 'n set \<Rightarrow> number \<Rightarrow> 'n \<Rightarrow> 'n list
     \<Rightarrow> 'n list \<Rightarrow> 'n num_entry list \<Rightarrow> error + 'n num_entry list" where
  "push_neighbors_num g alpha beta visited current_cost node path [] pq = Inr pq"
| "push_neighbors_num g alpha beta visited current_cost node path (neighbor # rest) pq =
     (if neighbor \<notin> visited then
        (case getitem g node neighbor of
           Inl e \<Rightarrow> Inl e
         | Inr edge \<Rightarrow>
             (case edge_weight_num alpha beta edge of
                Inl e \<Rightarrow> Inl e
              | Inr weight \<Rightarrow>
                  (case num_add current_cost weight of
                     Inl e \<Rightarrow> Inl e
                   | Inr cost \<Rightarrow>
                       push_neighbors_num g alpha beta visited current_cost node path rest
                         (heapq_heappush entry_lt pq (cost, neighbor, path)))))
      else push_neighbors_num g alpha beta visited current_cost node path rest pq)"

partial_function (option) dijkstra_loop_num ::
  "(('n::linorder), number) network \<Rightarrow> 'n \<Rightarrow> number \<Rightarrow> number \<Rightarrow> 'n num_entry list \<Rightarrow> 'n set
     \<Rightarrow> (error + (number \<times> 'n list)) option" where
  "dijkstra_loop_num g destination alpha beta pq visited =
     (if pq = [] then Some (Inr (PyFloat PosInf, []))
      else
        (case heapq_heappop entry_lt pq of
           Inl e \<Rightarrow> Some (Inl e)
         | Inr ((current_cost, node, path), pq') \<Rightarrow>
             if node \<in> visited then dijkstra_loop_num g destination alpha beta pq' visited
             else if node = destination then Some (Inr (current_cost, path @ [node]))
             else
               (case neighbors g node of
                  Inl e \<Rightarrow> Some (Inl e)
                | Inr nbrs \<Rightarrow>
                    (case push_neighbors_num g alpha beta (insert node visited) current_cost node
                            (path @ [node]) nbrs pq' of
                       Inl e \<Rightarrow> Some (Inl e)
                     | Inr pq'' \<Rightarrow>
                         dijkstra_loop_num g destination alpha beta pq'' (insert node visited)))))"

declare dijkstra_loop_num.simps [code]

definition multi_criteria_dijkstra_num ::
  "(('n::linorder), number) network \<Rightarrow> 'n \<Rightarrow> 'n \<Rightarrow> number \<Rightarrow> number
     \<Rightarrow> (error + (number \<times> 'n list)) option" where
  "multi_criteria_dijkstra_num graph source destination alpha beta =
     dijkstra_loop_num graph destination alpha beta [(PyInt 0, source, [])] {}"

text \<open>What a number is worth, and the exact value of \<open>alpha \<cdot> time + beta \<cdot> cost\<close>
  summed along a sequence of stops, computed without any rounding.\<close>

definition num_value :: "number \<Rightarrow> rat option" where
  "num_value x =
     (case x of
        PyInt i \<Rightarrow> Some (of_int i)
      | PyFloat (Finite r) \<Rightarrow> Some r
      | PyFloat _ \<Rightarrow> None)"

definition exact_route_weight ::
  "('n, number) network \<Rightarrow> number \<Rightarrow> number \<Rightarrow> 'n \<Rightarrow> 'n \<Rightarrow> rat option" where
  "exact_route_weight g alpha beta u v =
     (case get_edge_data g u v of
        None \<Rightarrow> None
      | Some d \<Rightarrow>
          (case (map_of d ''time'', map_of d ''cost'') of
             (Some t, Some c) \<Rightarrow>
               (case (num_value alpha, num_value t, num_value beta, num_value c) of
                  (Some a, Some tv, Some b, Some cv) \<Rightarrow> Some (a * tv + b * cv)
                | _ \<Rightarrow> None)
           | _ \<Rightarrow> None))"

fun exact_path_weight ::
  "('n, number) network \<Rightarrow> number \<Rightarrow> number \<Rightarrow> 'n list \<Rightarrow> rat option" where
  "exact_path_weight g alpha beta [] = Some 0"
| "exact_path_weight g alpha beta [x] = Some 0"
| "exact_path_weight g alpha beta (x # y # r) =
     (case exact_route_weight g alpha beta x y of
        None \<Rightarrow> None
      | Some w \<Rightarrow> map_option ((+) w) (exact_path_weight g alpha beta (y # r)))"

text \<open>A network given to the float search: a long direct route from \<open>S\<close> to \<open>T\<close> and
  a detour whose short legs vanish when added to a large float.  And the embedding of a
  network with integer attributes.\<close>

definition rounding_routes :: "(string \<times> string \<times> int \<times> int \<times> int) list" where
  "rounding_routes =
     [(''S'', ''B'', 10000000000000000, 1, 1),
      (''B'', ''C'', 1, 1, 1),
      (''C'', ''D'', 1, 1, 1),
      (''D'', ''T'', 1, 1, 1),
      (''S'', ''T'', 10000000000000002, 1, 1)]"

definition rounding_network :: "(string, number) network" where
  "rounding_network =
     fold (\<lambda>(u, v, time, cost, distance).
             add_edge u v [(''time'', PyInt time), (''cost'', PyInt cost),
                           (''distance'', PyInt distance)])
          rounding_routes []"

definition int_network :: "'n graph \<Rightarrow> ('n, number) network" where
  "int_network g = map (\<lambda>(u, nbrs). (u, map (\<lambda>(v, d). (v, map (\<lambda>(k, x). (k, PyInt x)) d)) nbrs)) g"

text \<open>The Python test \<^verbatim>\<open>x >= 0\<close>.\<close>

definition nonneg_number :: "number \<Rightarrow> bool" where
  "nonneg_number x = (num_lt (PyInt 0) x \<or> num_eq (PyInt 0) x)"

definition nonneg_weights_num :: "('n, number) network \<Rightarrow> bool" where
  "nonneg_weights_num g =
     (\<forall>(u, nbrs) \<in> set g. \<forall>(v, d) \<in> set nbrs.
        (case map_of d ''time'' of None \<Rightarrow> False | Some t \<Rightarrow> nonneg_number t) \<and>
        (case map_of d ''cost'' of None \<Rightarrow> False | Some c \<Rightarrow> nonneg_number c))"

section \<open>Paths and their weights\<close>

text \<open>The weight the search derives for the route between two stops, when that route
  exists and carries both attributes: \<open>alpha \<cdot> time + beta \<cdot> cost\<close>.\<close>

definition route_weight :: "'n graph \<Rightarrow> int \<Rightarrow> int \<Rightarrow> 'n \<Rightarrow> 'n \<Rightarrow> int option" where
  "route_weight g alpha beta u v =
     (case get_edge_data g u v of
        None \<Rightarrow> None
      | Some d \<Rightarrow>
          (case (map_of d ''time'', map_of d ''cost'') of
             (Some t, Some c) \<Rightarrow> Some (alpha * t + beta * c)
           | _ \<Rightarrow> None))"

text \<open>The sum of the derived weights over the consecutive pairs of a sequence of stops;
  \<open>None\<close> when some pair has no weighted route.\<close>

fun path_weight :: "'n graph \<Rightarrow> int \<Rightarrow> int \<Rightarrow> 'n list \<Rightarrow> int option" where
  "path_weight g alpha beta [] = Some 0"
| "path_weight g alpha beta [x] = Some 0"
| "path_weight g alpha beta (x # y # r) =
     (case route_weight g alpha beta x y of
        None \<Rightarrow> None
      | Some w \<Rightarrow> map_option ((+) w) (path_weight g alpha beta (y # r)))"

text \<open>Consecutive stops are joined by a route of the network.\<close>

fun walk :: "('n, 'v) network \<Rightarrow> 'n list \<Rightarrow> bool" where
  "walk g [] = True"
| "walk g [x] = True"
| "walk g (x # y # r) = (get_edge_data g x y \<noteq> None \<and> walk g (y # r))"

definition is_path :: "('n, 'v) network \<Rightarrow> 'n \<Rightarrow> 'n \<Rightarrow> 'n list \<Rightarrow> bool" where
  "is_path g s d p = (p \<noteq> [] \<and> hd p = s \<and> last p = d \<and> walk g p)"

text \<open>Structural facts of a network: every neighbour is itself a stop of the network
  (\<^verbatim>\<open>add_edge\<close> creates both ends), and every route carries a time and a cost; for the
  optimality of the search they are moreover non-negative.\<close>

definition closed_graph :: "'n graph \<Rightarrow> bool" where
  "closed_graph g = (\<forall>(u, nbrs) \<in> set g. \<forall>(v, d) \<in> set nbrs. has_node g v)"

definition weighted :: "'n graph \<Rightarrow> bool" where
  "weighted g =
     (\<forall>(u, nbrs) \<in> set g. \<forall>(v, d) \<in> set nbrs.
        map_of d ''time'' \<noteq> None \<and> map_of d ''cost'' \<noteq> None)"

definition nonneg_weights :: "'n graph \<Rightarrow> bool" where
  "nonneg_weights g =
     (\<forall>(u, nbrs) \<in> set g. \<forall>(v, d) \<in> set nbrs.
        (case map_of d ''time'' of None \<Rightarrow> False | Some t \<Rightarrow> 0 \<le> t) \<and>
        (case map_of d ''cost'' of None \<Rightarrow> False | Some c \<Rightarrow> 0 \<le> c))"

text \<open>The attribute dictionary of one route carries a non-negative time and cost.\<close>

definition nonneg_data :: "edge_data \<Rightarrow> bool" where
  "nonneg_data d =
     ((case map_of d ''time'' of None \<Rightarrow> False | Some t \<Rightarrow> 0 \<le> t) \<and>
      (case map_of d ''cost'' of None \<Rightarrow> False | Some c \<Rightarrow> 0 \<le> c))"

text \<open>Dictionary keys are unique: the stops, and the neighbours of each stop.\<close>

definition keys_distinct :: "'n graph \<Rightarrow> bool" where
  "keys_distinct g = (distinct (map fst g) \<and> (\<forall>(u, nbrs) \<in> set g. distinct (map fst nbrs)))"


section \<open>Invariants of the search loop\<close>

text \<open>A frontier entry \<open>(c, y, p)\<close> records a real route: \<open>p @ [y]\<close> starts at the
  source, its derived weight is \<open>c\<close>, and \<open>p\<close> consists of distinct stops that are all
  finalized.\<close>

definition entry_ok :: "'n graph \<Rightarrow> int \<Rightarrow> int \<Rightarrow> 'n \<Rightarrow> 'n set \<Rightarrow> 'n entry \<Rightarrow> bool" where
  "entry_ok g a b s V e =
     (case e of (c, y, p) \<Rightarrow>
        hd (p @ [y]) = s \<and> path_weight g a b (p @ [y]) = Some c \<and> set p \<subseteq> V \<and> distinct p)"

definition frontier_ok :: "'n graph \<Rightarrow> int \<Rightarrow> int \<Rightarrow> 'n \<Rightarrow> 'n entry list \<Rightarrow> 'n set \<Rightarrow> bool" where
  "frontier_ok g a b s pq V = (\<forall>e \<in> set pq. entry_ok g a b s V e)"

text \<open>The frontier covers every way out of the finalized set: for each weighted route from
  the source whose last stop is the first one not finalized, the frontier holds an entry
  for that stop that is at most as heavy.\<close>

definition frontier_covers :: "'n graph \<Rightarrow> int \<Rightarrow> int \<Rightarrow> 'n \<Rightarrow> 'n entry list \<Rightarrow> 'n set \<Rightarrow> bool" where
  "frontier_covers g a b s pq V =
     (\<forall>r x k. hd (r @ [x]) = s \<and> (r = [] \<or> last r \<in> V) \<and> x \<notin> V \<and>
              path_weight g a b (r @ [x]) = Some k
              \<longrightarrow> (\<exists>c p. (c, x, p) \<in> set pq \<and> c \<le> k))"

section \<open>Routes, weights and paths\<close>

lemma get_edge_dataD:
  "get_edge_data g u v = Some d \<Longrightarrow> \<exists>nbrs. map_of g u = Some nbrs \<and> (u, nbrs) \<in> set g \<and> map_of nbrs v = Some d \<and> (v, d) \<in> set nbrs"
  by (auto simp: get_edge_data_def split: option.splits dest: map_of_SomeD)

lemma route_weight_SomeD:
  "route_weight g a b u v = Some w \<Longrightarrow>
     \<exists>d t c. get_edge_data g u v = Some d \<and> map_of d ''time'' = Some t \<and> map_of d ''cost'' = Some c
        \<and> w = a * t + b * c"
  by (auto simp: route_weight_def split: option.splits)

lemma route_weight_edge_weight:
  "get_edge_data g u v = Some d \<Longrightarrow>
     edge_weight a b d = (case route_weight g a b u v of None \<Rightarrow> Inl KeyError | Some w \<Rightarrow> Inr w)"
  by (auto simp: route_weight_def edge_weight_def split: option.splits)

lemma route_weight_nonneg:
  assumes "nonneg_weights g" "0 \<le> a" "0 \<le> b" "route_weight g a b u v = Some w"
  shows "0 \<le> w"
proof -
  from route_weight_SomeD[OF assms(4)] obtain d t c where
    d: "get_edge_data g u v = Some d" "map_of d ''time'' = Some t" "map_of d ''cost'' = Some c"
    and w: "w = a * t + b * c" by blast
  from get_edge_dataD[OF d(1)] obtain nbrs where "(u, nbrs) \<in> set g" "(v, d) \<in> set nbrs" by blast
  with assms(1) d have "0 \<le> t" "0 \<le> c"
    by (fastforce simp: nonneg_weights_def)+
  with assms w show ?thesis by simp
qed

lemma path_weight_snoc:
  "path_weight g a b (p @ [n, x]) =
     (case path_weight g a b (p @ [n]) of
        None \<Rightarrow> None
      | Some c \<Rightarrow> map_option ((+) c) (route_weight g a b n x))"
proof (induction p rule: induct_list012)
  case 1
  then show ?case by (simp split: option.splits)
next
  case (2 y)
  then show ?case by (cases "route_weight g a b n x") (auto split: option.splits)
next
  case (3 y z zs)
  then show ?case by (cases "route_weight g a b n x") (auto split: option.splits)
qed

lemma path_weight_snoc_Some:
  "path_weight g a b (p @ [n]) = Some c \<Longrightarrow> route_weight g a b n x = Some w \<Longrightarrow>
   path_weight g a b (p @ [n, x]) = Some (c + w)"
  by (simp add: path_weight_snoc)

lemma path_weight_snocD:
  "path_weight g a b (p @ [n, x]) = Some k \<Longrightarrow>
   \<exists>c w. path_weight g a b (p @ [n]) = Some c \<and> route_weight g a b n x = Some w \<and> k = c + w"
  by (auto simp: path_weight_snoc split: option.splits)

lemma path_weight_prefix:
  assumes nn: "nonneg_weights g" "0 \<le> a" "0 \<le> b"
  shows "path_weight g a b (p @ q) = Some k \<Longrightarrow> \<exists>k'. path_weight g a b p = Some k' \<and> k' \<le> k"
proof (induction q arbitrary: k rule: rev_induct)
  case Nil
  then show ?case by simp
next
  case (snoc x xs)
  show ?case
  proof (cases "p @ xs" rule: rev_cases)
    case Nil
    with snoc.prems show ?thesis by simp
  next
    case (snoc ys y)
    have "p @ xs @ [x] = ys @ [y, x]" using snoc by (metis append.assoc append_Cons append_Nil)
    with snoc.prems have "path_weight g a b (ys @ [y, x]) = Some k" by simp
    from path_weight_snocD[OF this] obtain c w where
      c: "path_weight g a b (ys @ [y]) = Some c" "route_weight g a b y x = Some w" "k = c + w"
      by blast
    from c(1) snoc have "path_weight g a b (p @ xs) = Some c" by simp
    from snoc.IH[OF this] obtain k' where "path_weight g a b p = Some k'" "k' \<le> c" by blast
    moreover from route_weight_nonneg[OF nn c(2)] c(3) have "c \<le> k" by simp
    ultimately show ?thesis by auto
  qed
qed

lemma path_weight_walk: "path_weight g a b p = Some k \<Longrightarrow> walk g p"
  by (induction p arbitrary: k rule: induct_list012)
     (auto simp: route_weight_def split: option.splits)

section \<open>The neighbour loop\<close>

lemma push_neighbors_set:
  "push_neighbors g a b V c n path xs pq = Inr pq2 \<Longrightarrow>
     set pq2 = set pq \<union> {(c + w, x, path) | x w. x \<in> set xs \<and> x \<notin> V \<and> route_weight g a b n x = Some w}
     \<and> (\<forall>x \<in> set xs. x \<notin> V \<longrightarrow> route_weight g a b n x \<noteq> None)"
proof (induction xs arbitrary: pq)
  case Nil
  then show ?case by simp
next
  case (Cons x xs)
  show ?case
  proof (cases "x \<in> V")
    case True
    with Cons.prems have "push_neighbors g a b V c n path xs pq = Inr pq2" by simp
    from Cons.IH[OF this] True show ?thesis by auto
  next
    case False
    with Cons.prems obtain d w where d: "get_edge_data g n x = Some d" and w: "edge_weight a b d = Inr w"
      and r: "push_neighbors g a b V c n path xs (heappush pq (c + w, x, path)) = Inr pq2"
      by (auto simp: getitem_def split: option.splits sum.splits)
    from d w have rw: "route_weight g a b n x = Some w"
      by (auto simp: route_weight_edge_weight split: option.splits)
    from Cons.IH[OF r] False rw show ?thesis by (auto simp: heappush_def)
  qed
qed

lemma push_neighbors_total:
  "set xs \<subseteq> {x. get_edge_data g n x \<noteq> None} \<Longrightarrow> (\<forall>x \<in> set xs. x \<notin> V \<longrightarrow> route_weight g a b n x \<noteq> None) \<Longrightarrow>
     \<exists>pq2. push_neighbors g a b V c n path xs pq = Inr pq2"
proof (induction xs arbitrary: pq)
  case Nil
  then show ?case by simp
next
  case (Cons x xs)
  then show ?case
    by (auto simp: getitem_def route_weight_edge_weight split: option.splits sum.splits)
qed

section \<open>An invariant rule for the search loop\<close>

lemma dijkstra_loop_rule:
  assumes init: "I pq V"
    and discard: "\<And>pq V c n p. \<lbrakk>I pq V; pq \<noteq> []; Min (set pq) = (c, n, p); n \<in> V\<rbrakk>
                    \<Longrightarrow> I (remove1 (c, n, p) pq) V"
    and expand: "\<And>pq V c n p nbrs pq2.
                   \<lbrakk>I pq V; pq \<noteq> []; Min (set pq) = (c, n, p); n \<notin> V; n \<noteq> d;
                    neighbors g n = Inr nbrs;
                    push_neighbors g a b (insert n V) c n (p @ [n]) nbrs (remove1 (c, n, p) pq) = Inr pq2\<rbrakk>
                    \<Longrightarrow> I pq2 (insert n V)"
    and empty: "\<And>V. I [] V \<Longrightarrow> Q (Inr (Infinity, []))"
    and found: "\<And>pq V c p. \<lbrakk>I pq V; pq \<noteq> []; Min (set pq) = (c, d, p); d \<notin> V\<rbrakk>
                    \<Longrightarrow> Q (Inr (Fin c, p @ [d]))"
    and no_node: "\<And>pq V c n p e. \<lbrakk>I pq V; pq \<noteq> []; Min (set pq) = (c, n, p); n \<notin> V; n \<noteq> d;
                    neighbors g n = Inl e\<rbrakk> \<Longrightarrow> Q (Inl e)"
    and no_attr: "\<And>pq V c n p nbrs e.
                   \<lbrakk>I pq V; pq \<noteq> []; Min (set pq) = (c, n, p); n \<notin> V; n \<noteq> d;
                    neighbors g n = Inr nbrs;
                    push_neighbors g a b (insert n V) c n (p @ [n]) nbrs (remove1 (c, n, p) pq) = Inl e\<rbrakk>
                    \<Longrightarrow> Q (Inl e)"
  shows "Q (dijkstra_loop g d a b pq V)"
  using assms
proof (induction g d a b pq V rule: dijkstra_loop.induct)
  case (1 g d a b pq V)
  note init = "1.prems"(1) and discard = "1.prems"(2) and expand = "1.prems"(3)
    and empty = "1.prems"(4) and found = "1.prems"(5) and no_node = "1.prems"(6)
    and no_attr = "1.prems"(7)
  note rest = "1.prems"(2-7)
  show ?case
  proof (cases "pq = []")
    case True
    with init empty show ?thesis by (subst dijkstra_loop.simps) simp
  next
    case False
    obtain c n p where m: "Min (set pq) = (c, n, p)" by (cases "Min (set pq)") auto
    then have hp: "heappop pq = ((c, n, p), remove1 (c, n, p) pq)" by (simp add: heappop_def)
    show ?thesis
    proof (cases "n \<in> V")
      case True
      from discard[OF init False m True]
      have "Q (dijkstra_loop g d a b (remove1 (c, n, p) pq) V)"
        by (rule "1.IH"(1)[OF False hp[symmetric] refl refl True _ rest])
      with False hp True show ?thesis by (subst dijkstra_loop.simps) simp
    next
      case nV: False
      show ?thesis
      proof (cases "n = d")
        case True
        with m nV have "Q (Inr (Fin c, p @ [d]))"
          by (intro found[OF init False]) auto
        with False hp nV True show ?thesis by (subst dijkstra_loop.simps) simp
      next
        case nd: False
        show ?thesis
        proof (cases "neighbors g n")
          case (Inl e)
          from no_node[OF init False m nV nd Inl] False hp nV nd Inl
          show ?thesis by (subst dijkstra_loop.simps) simp
        next
          case (Inr nbrs)
          show ?thesis
          proof (cases "push_neighbors g a b (insert n V) c n (p @ [n]) nbrs (remove1 (c, n, p) pq)")
            case e: (Inl e)
            from no_attr[OF init False m nV nd Inr e] False hp nV nd Inr e
            show ?thesis by (subst dijkstra_loop.simps) simp
          next
            case pq2: (Inr pq2)
            from expand[OF init False m nV nd Inr pq2]
            have "Q (dijkstra_loop g d a b pq2 (insert n V))"
              by (rule "1.IH"(2)[OF False hp[symmetric] refl refl nV nd Inr pq2 _ rest])
            with False hp nV nd Inr pq2 show ?thesis by (subst dijkstra_loop.simps) simp
          qed
        qed
      qed
    qed
  qed
qed

section \<open>Every frontier entry is a real route\<close>

lemma Min_entry_in: "pq \<noteq> [] \<Longrightarrow> Min (set pq) = e \<Longrightarrow> e \<in> set pq"
  using Min_in[of "set pq"] by auto

lemma Min_entry_le:
  fixes pq :: "('n::linorder) entry list"
  assumes "Min (set pq) = (c, n, p)" "(c', n', p') \<in> set pq"
  shows "c \<le> c'"
proof -
  from assms have "(c, n, p) \<le> (c', n', p')" using Min_le[of "set pq" "(c', n', p')"] by simp
  then show ?thesis by (auto simp: less_eq_prod_def)
qed

lemma frontier_ok_init: "frontier_ok g a b s [(0, s, [])] {}"
  by (simp add: frontier_ok_def entry_ok_def)

lemma frontier_ok_discard: "frontier_ok g a b s pq V \<Longrightarrow> frontier_ok g a b s (remove1 e pq) V"
  by (auto simp: frontier_ok_def dest: notin_set_remove1)

lemma entry_ok_mono: "entry_ok g a b s V e \<Longrightarrow> V \<subseteq> V' \<Longrightarrow> entry_ok g a b s V' e"
  by (auto simp: entry_ok_def)

lemma frontier_ok_expand:
  assumes ok: "frontier_ok g a b s pq V"
    and ne: "pq \<noteq> []" and m: "Min (set pq) = (c, n, p)" and nV: "n \<notin> V"
    and push: "push_neighbors g a b (insert n V) c n (p @ [n]) nbrs (remove1 (c, n, p) pq) = Inr pq2"
  shows "frontier_ok g a b s pq2 (insert n V)"
proof -
  from Min_entry_in[OF ne m] ok have e: "entry_ok g a b s V (c, n, p)"
    by (simp add: frontier_ok_def)
  note S = push_neighbors_set[OF push, THEN conjunct1]
  show ?thesis unfolding frontier_ok_def
  proof
    fix e assume "e \<in> set pq2"
    with S consider (old) "e \<in> set (remove1 (c, n, p) pq)"
      | (new) x w where "e = (c + w, x, p @ [n])" "route_weight g a b n x = Some w"
      by auto
    then show "entry_ok g a b s (insert n V) e"
    proof cases
      case old
      then have "e \<in> set pq" using notin_set_remove1 by fastforce
      with ok have "entry_ok g a b s V e" by (simp add: frontier_ok_def)
      then show ?thesis by (rule entry_ok_mono) auto
    next
      case new
      from e have "path_weight g a b (p @ [n]) = Some c" by (simp add: entry_ok_def)
      from path_weight_snoc_Some[OF this new(2)]
      have "path_weight g a b ((p @ [n]) @ [x]) = Some (c + w)" by simp
      moreover from e have "hd ((p @ [n]) @ [x]) = s" by (cases p) (auto simp: entry_ok_def)
      moreover from e nV have "set (p @ [n]) \<subseteq> insert n V" "distinct (p @ [n])"
        by (auto simp: entry_ok_def)
      ultimately show ?thesis unfolding new(1) entry_ok_def by simp
    qed
  qed
qed

lemma dijkstra_loop_sound:
  assumes "frontier_ok g a b s pq V"
  shows "dijkstra_loop g d a b pq V = Inr (Fin w, path) \<Longrightarrow>
           is_path g s d path \<and> path_weight g a b path = Some w \<and> distinct path"
proof (rule dijkstra_loop_rule[where I = "frontier_ok g a b s" and g = g and a = a and b = b and d = d
        and pq = pq and V = V
        and Q = "\<lambda>r. r = Inr (Fin w, path) \<longrightarrow>
                  is_path g s d path \<and> path_weight g a b path = Some w \<and> distinct path", rule_format])
  show "frontier_ok g a b s pq V" by fact
next
  fix pq V c p
  assume ok: "frontier_ok g a b s pq V" and ne: "pq \<noteq> []" and m: "Min (set pq) = (c, d, p)"
    and dV: "d \<notin> V" and eq: "Inr (Fin c, p @ [d]) = (Inr (Fin w, path) :: error + weight \<times> 'a list)"
  from Min_entry_in[OF ne m] ok have e: "entry_ok g a b s V (c, d, p)"
    by (simp add: frontier_ok_def)
  from e have pw: "path_weight g a b (p @ [d]) = Some c" by (simp add: entry_ok_def)
  from e dV have "distinct (p @ [d])" by (auto simp: entry_ok_def)
  moreover from e path_weight_walk[OF pw] have "is_path g s d (p @ [d])"
    by (simp add: is_path_def entry_ok_def)
  ultimately show "is_path g s d path \<and> path_weight g a b path = Some w \<and> distinct path"
    using eq pw by auto
qed (auto intro: frontier_ok_discard frontier_ok_expand)

lemma dijkstra_loop_unreachable_path:
  "dijkstra_loop g d a b pq V = Inr (Infinity, path) \<Longrightarrow> path = []"
  by (rule dijkstra_loop_rule[where I = "\<lambda>_ _. True" and g = g and a = a and b = b and d = d
        and pq = pq and V = V
        and Q = "\<lambda>r. r = Inr (Infinity, path) \<longrightarrow> path = []", rule_format]) auto

section \<open>The least frontier entry is a lower bound\<close>

lemma frontier_coversD:
  "frontier_covers g a b s pq V \<Longrightarrow> hd (r @ [x]) = s \<Longrightarrow> r = [] \<or> last r \<in> V \<Longrightarrow> x \<notin> V \<Longrightarrow>
   path_weight g a b (r @ [x]) = Some k \<Longrightarrow> \<exists>c p. (c, x, p) \<in> set pq \<and> c \<le> k"
  unfolding frontier_covers_def by blast

lemma frontier_covers_init: "frontier_covers g a b s [(0, s, [])] {}"
proof -
  have "r = [] \<or> last r \<in> {} \<Longrightarrow> r = []" for r :: "'a list" by simp
  then show ?thesis unfolding frontier_covers_def by auto
qed

lemma first_unvisited:
  assumes nn: "nonneg_weights g" "0 \<le> a" "0 \<le> b"
    and q: "q \<noteq> []" "hd q = s" "last q \<notin> V" "path_weight g a b q = Some k"
  shows "\<exists>r x k'. hd (r @ [x]) = s \<and> (r = [] \<or> last r \<in> V) \<and> x \<notin> V \<and>
            path_weight g a b (r @ [x]) = Some k' \<and> k' \<le> k"
proof -
  let ?r = "takeWhile (\<lambda>v. v \<in> V) q"
  let ?t = "dropWhile (\<lambda>v. v \<in> V) q"
  from q(1,3) have "?t \<noteq> []" by (auto simp: dropWhile_eq_Nil_conv)
  then obtain x t where t: "?t = x # t" by (cases ?t) auto
  then have xV: "x \<notin> V" using hd_dropWhile[of "\<lambda>v. v \<in> V" q] by simp
  have split: "q = (?r @ [x]) @ t" using takeWhile_dropWhile_id[of "\<lambda>v. v \<in> V" q] t by simp
  from path_weight_prefix[OF nn, of "?r @ [x]" t k] q(4) split
  obtain k' where k': "path_weight g a b (?r @ [x]) = Some k'" "k' \<le> k" by auto
  have "hd (?r @ [x]) = hd q" by (subst (2) split) (simp add: hd_append)
  moreover have "?r = [] \<or> last ?r \<in> V"
    using set_takeWhileD[of "last ?r" "\<lambda>v. v \<in> V" q] last_in_set[of ?r] by blast
  ultimately show ?thesis using xV k' q(2) by blast
qed

lemma frontier_min_bound:
  fixes pq :: "('n::linorder) entry list"
  assumes nn: "nonneg_weights g" "0 \<le> a" "0 \<le> b"
    and cov: "frontier_covers g a b s pq V"
    and q: "q \<noteq> []" "hd q = s" "last q \<notin> V" "path_weight g a b q = Some k"
  shows "pq \<noteq> [] \<and> (\<forall>c n p. Min (set pq) = (c, n, p) \<longrightarrow> c \<le> k)"
proof -
  from first_unvisited[OF nn q] obtain r x k' where
    r: "hd (r @ [x]) = s" "r = [] \<or> last r \<in> V" "x \<notin> V" "path_weight g a b (r @ [x]) = Some k'"
    and le: "k' \<le> k" by blast
  from frontier_coversD[OF cov r] obtain c' p' where e: "(c', x, p') \<in> set pq" "c' \<le> k'" by blast
  then have "pq \<noteq> []" by auto
  moreover have "c \<le> k" if "Min (set pq) = (c, n, p)" for c n p
    using Min_entry_le[OF that e(1)] e(2) le by simp
  ultimately show ?thesis by blast
qed

lemma frontier_covers_discard:
  assumes cov: "frontier_covers g a b s pq V" and nV: "n \<in> V"
  shows "frontier_covers g a b s (remove1 (c, n, p) pq) V"
  unfolding frontier_covers_def
proof (intro allI impI)
  fix r x k
  assume h: "hd (r @ [x]) = s \<and> (r = [] \<or> last r \<in> V) \<and> x \<notin> V \<and> path_weight g a b (r @ [x]) = Some k"
  then obtain c' p' where e: "(c', x, p') \<in> set pq" "c' \<le> k"
    using frontier_coversD[OF cov, of r x k] by blast
  from h nV have "(c', x, p') \<noteq> (c, n, p)" by auto
  with e(1) have "(c', x, p') \<in> set (remove1 (c, n, p) pq)" by simp
  with e(2) show "\<exists>c' p'. (c', x, p') \<in> set (remove1 (c, n, p) pq) \<and> c' \<le> k" by blast
qed

lemma route_weight_neighbors:
  "route_weight g a b n x = Some w \<Longrightarrow> neighbors g n = Inr nbrs \<Longrightarrow> x \<in> set nbrs"
proof -
  assume "route_weight g a b n x = Some w" and nb: "neighbors g n = Inr nbrs"
  then obtain d where "get_edge_data g n x = Some d" by (auto dest: route_weight_SomeD)
  then obtain l where l: "map_of g n = Some l" "map_of l x = Some d"
    by (auto simp: get_edge_data_def split: option.splits)
  from l(2) have "(x, d) \<in> set l" by (rule map_of_SomeD)
  then have "x \<in> set (map fst l)" by force
  with l(1) nb show ?thesis by (auto simp: neighbors_def)
qed

lemma frontier_covers_expand:
  fixes pq :: "('n::linorder) entry list"
  assumes nn: "nonneg_weights g" "0 \<le> a" "0 \<le> b"
    and cov: "frontier_covers g a b s pq V"
    and m: "Min (set pq) = (c, n, p)" and nV: "n \<notin> V"
    and nb: "neighbors g n = Inr nbrs"
    and push: "push_neighbors g a b (insert n V) c n (p @ [n]) nbrs (remove1 (c, n, p) pq) = Inr pq2"
  shows "frontier_covers g a b s pq2 (insert n V)"
  unfolding frontier_covers_def
proof (intro allI impI, elim conjE)
  fix r x k
  assume hd: "hd (r @ [x]) = s" and lr: "r = [] \<or> last r \<in> insert n V" and xV: "x \<notin> insert n V"
    and pw: "path_weight g a b (r @ [x]) = Some k"
  note S = push_neighbors_set[OF push, THEN conjunct1]
  show "\<exists>c p. (c, x, p) \<in> set pq2 \<and> c \<le> k"
  proof (cases "r \<noteq> [] \<and> last r = n")
    case False
    with lr have "r = [] \<or> last r \<in> V" by auto
    from frontier_coversD[OF cov hd this _ pw] xV
    obtain c' p' where e: "(c', x, p') \<in> set pq" "c' \<le> k" by auto
    from xV have "(c', x, p') \<noteq> (c, n, p)" by auto
    with e(1) have "(c', x, p') \<in> set (remove1 (c, n, p) pq)" by simp
    with S e(2) show ?thesis by blast
  next
    case True
    then obtain r' where r': "r = r' @ [n]" by (cases r rule: rev_cases) auto
    with pw have "path_weight g a b (r' @ [n, x]) = Some k" by simp
    from path_weight_snocD[OF this] obtain kr w where
      kr: "path_weight g a b (r' @ [n]) = Some kr" and w: "route_weight g a b n x = Some w"
      and k: "k = kr + w" by blast
    have "hd (r' @ [n]) = s" using hd r' by (cases r') auto
    with frontier_min_bound[OF nn cov _ _ _ kr] nV m have "c \<le> kr" by auto
    moreover from route_weight_neighbors[OF w nb] xV w S
    have "(c + w, x, p @ [n]) \<in> set pq2" by auto
    ultimately show ?thesis using k by (intro exI[of _ "c + w"] exI[of _ "p @ [n]"]) simp
  qed
qed

section \<open>Totality on well-formed networks and optimality\<close>

lemma has_node_iff: "has_node g n \<longleftrightarrow> map_of g n \<noteq> None"
  by (simp add: has_node_def nodes_def map_of_eq_None_iff)

lemma closed_graph_route:
  assumes "closed_graph g" "get_edge_data g u v = Some d"
  shows "has_node g v"
proof -
  from get_edge_dataD[OF assms(2)] obtain nbrs where "(u, nbrs) \<in> set g" "(v, d) \<in> set nbrs"
    by blast
  with assms(1) show ?thesis by (fastforce simp: closed_graph_def)
qed

lemma weighted_route:
  assumes "weighted g" "get_edge_data g u v = Some d"
  shows "route_weight g a b u v \<noteq> None"
proof -
  from get_edge_dataD[OF assms(2)] obtain nbrs where "(u, nbrs) \<in> set g" "(v, d) \<in> set nbrs"
    by blast
  with assms(1) have "map_of d ''time'' \<noteq> None \<and> map_of d ''cost'' \<noteq> None"
    by (fastforce simp: weighted_def)
  with assms(2) show ?thesis by (auto simp: route_weight_def)
qed

lemma nonneg_weights_weighted: "nonneg_weights g \<Longrightarrow> weighted g"
  unfolding nonneg_weights_def weighted_def by (fastforce split: option.splits)

lemma walk_path_weight:
  "weighted g \<Longrightarrow> walk g p \<Longrightarrow> \<exists>k. path_weight g a b p = Some k"
proof (induction p rule: induct_list012)
  case (3 x y zs)
  then obtain d where "get_edge_data g x y = Some d" by auto
  from weighted_route[OF "3.prems"(1) this] obtain w where "route_weight g a b x y = Some w"
    by blast
  with 3 show ?case by auto
qed simp_all

lemma entry_node_in_graph:
  assumes "closed_graph g" "has_node g s" "entry_ok g a b s V (c, n, p)"
  shows "has_node g n"
proof (cases p rule: rev_cases)
  case Nil
  with assms show ?thesis by (simp add: entry_ok_def)
next
  case (snoc p' u)
  with assms(3) have "path_weight g a b (p' @ [u, n]) = Some c" by (simp add: entry_ok_def)
  from path_weight_snocD[OF this] obtain w where "route_weight g a b u n = Some w" by blast
  then obtain d where "get_edge_data g u n = Some d" by (auto dest: route_weight_SomeD)
  from closed_graph_route[OF assms(1) this] show ?thesis .
qed

lemma neighbors_edge:
  "neighbors g n = Inr nbrs \<Longrightarrow> x \<in> set nbrs \<Longrightarrow> get_edge_data g n x \<noteq> None"
proof -
  assume nb: "neighbors g n = Inr nbrs" and x: "x \<in> set nbrs"
  then obtain l where l: "map_of g n = Some l" "nbrs = map fst l"
    by (auto simp: neighbors_def split: option.splits)
  with x have "map_of l x \<noteq> None" by (simp add: map_of_eq_None_iff)
  with l(1) show ?thesis by (simp add: get_edge_data_def)
qed

lemma dijkstra_loop_no_error:
  fixes pq :: "('n::linorder) entry list"
  assumes cl: "closed_graph g" and wt: "weighted g" and s: "has_node g s"
    and ok: "frontier_ok g a b s pq V"
  shows "dijkstra_loop g d a b pq V \<noteq> Inl e"
proof (rule dijkstra_loop_rule[where I = "frontier_ok g a b s" and g = g and a = a and b = b and d = d
        and pq = pq and V = V and Q = "\<lambda>r. r \<noteq> Inl e"])
  show "frontier_ok g a b s pq V" by fact
next
  fix pq :: "'n entry list" and V c n p e'
  assume ok: "frontier_ok g a b s pq V" and ne: "pq \<noteq> []" and m: "Min (set pq) = (c, n, p)"
    and nb: "neighbors g n = Inl e'"
  from Min_entry_in[OF ne m] ok have "entry_ok g a b s V (c, n, p)" by (simp add: frontier_ok_def)
  from entry_node_in_graph[OF cl s this] nb show "Inl e' \<noteq> (Inl e :: error + weight \<times> 'n list)"
    by (auto simp: has_node_iff neighbors_def split: option.splits)
next
  fix pq :: "'n entry list" and V c n p nbrs e'
  assume nb: "neighbors g n = Inr nbrs"
    and push: "push_neighbors g a b (insert n V) c n (p @ [n]) nbrs (remove1 (c, n, p) pq) = Inl e'"
  have "set nbrs \<subseteq> {x. get_edge_data g n x \<noteq> None}" using neighbors_edge[OF nb] by auto
  moreover have "\<forall>x \<in> set nbrs. x \<notin> insert n V \<longrightarrow> route_weight g a b n x \<noteq> None"
    using neighbors_edge[OF nb] weighted_route[OF wt] by blast
  ultimately show "Inl e' \<noteq> (Inl e :: error + weight \<times> 'n list)"
    using push_neighbors_total[of nbrs g n "insert n V" a b c "p @ [n]" "remove1 (c, n, p) pq"] push
    by auto
qed (auto intro: frontier_ok_discard frontier_ok_expand)

lemma dijkstra_loop_lower_bound:
  fixes pq :: "('n::linorder) entry list"
  assumes nn: "nonneg_weights g" "0 \<le> a" "0 \<le> b"
    and cov: "frontier_covers g a b s pq V" and dV: "d \<notin> V"
    and q: "q \<noteq> []" "hd q = s" "last q = d" "path_weight g a b q = Some k"
  shows "(\<forall>w p. dijkstra_loop g d a b pq V = Inr (Fin w, p) \<longrightarrow> w \<le> k) \<and>
         (\<forall>p. dijkstra_loop g d a b pq V \<noteq> Inr (Infinity, p))"
proof (rule dijkstra_loop_rule[where I = "\<lambda>pq V. frontier_covers g a b s pq V \<and> d \<notin> V"
        and g = g and a = a and b = b and d = d and pq = pq and V = V
        and Q = "\<lambda>r. (\<forall>w p. r = Inr (Fin w, p) \<longrightarrow> w \<le> k) \<and> (\<forall>p. r \<noteq> Inr (Infinity, p))"])
  show "frontier_covers g a b s pq V \<and> d \<notin> V" using cov dV by simp
next
  fix pq :: "'n entry list" and V c n p
  assume "frontier_covers g a b s pq V \<and> d \<notin> V" "n \<in> V"
  then show "frontier_covers g a b s (remove1 (c, n, p) pq) V \<and> d \<notin> V"
    by (simp add: frontier_covers_discard)
next
  fix pq :: "'n entry list" and V c n p nbrs pq2
  assume "frontier_covers g a b s pq V \<and> d \<notin> V" "Min (set pq) = (c, n, p)" "n \<notin> V" "n \<noteq> d"
    "neighbors g n = Inr nbrs"
    "push_neighbors g a b (insert n V) c n (p @ [n]) nbrs (remove1 (c, n, p) pq) = Inr pq2"
  then show "frontier_covers g a b s pq2 (insert n V) \<and> d \<notin> insert n V"
    using frontier_covers_expand[OF nn, of s pq V c n p nbrs pq2] by auto
next
  fix V :: "'n set"
  assume "frontier_covers g a b s [] V \<and> d \<notin> V"
  with frontier_min_bound[OF nn, of s "[]" V q k] q
  show "(\<forall>w p. (Inr (Infinity, []) :: error + weight \<times> 'n list) = Inr (Fin w, p) \<longrightarrow> w \<le> k) \<and>
        (\<forall>p. (Inr (Infinity, []) :: error + weight \<times> 'n list) \<noteq> Inr (Infinity, p))"
    by auto
next
  fix pq :: "'n entry list" and V c p
  assume "frontier_covers g a b s pq V \<and> d \<notin> V" "Min (set pq) = (c, d, p)"
  with frontier_min_bound[OF nn, of s pq V q k] q
  show "(\<forall>w p'. (Inr (Fin c, p @ [d]) :: error + weight \<times> 'n list) = Inr (Fin w, p') \<longrightarrow> w \<le> k) \<and>
        (\<forall>p'. (Inr (Fin c, p @ [d]) :: error + weight \<times> 'n list) \<noteq> Inr (Infinity, p'))"
    by auto
qed auto

lemma dijkstra_optimal:
  fixes g :: "('n::linorder) graph"
  assumes cl: "closed_graph g" and nn: "nonneg_weights g" "0 \<le> a" "0 \<le> b"
    and s: "has_node g s" and q: "is_path g s d q"
  shows "\<exists>w p. multi_criteria_dijkstra g s d a b = Inr (Fin w, p) \<and>
            is_path g s d p \<and> distinct p \<and> path_weight g a b p = Some w \<and>
            (\<forall>q'. is_path g s d q' \<longrightarrow> (\<exists>k. path_weight g a b q' = Some k \<and> w \<le> k))"
proof -
  let ?r = "multi_criteria_dijkstra g s d a b"
  note wt = nonneg_weights_weighted[OF nn(1)]
  have bound: "(\<forall>w p. ?r = Inr (Fin w, p) \<longrightarrow> w \<le> k) \<and> (\<forall>p. ?r \<noteq> Inr (Infinity, p))"
    if "is_path g s d q'" "path_weight g a b q' = Some k" for q' k
    unfolding multi_criteria_dijkstra_def
    using dijkstra_loop_lower_bound[OF nn frontier_covers_init, where d = d and q = q' and k = k and s = s] that
    by (simp add: is_path_def)
  from q walk_path_weight[OF wt, of q a b] obtain kq where kq: "path_weight g a b q = Some kq"
    by (auto simp: is_path_def)
  have "?r \<noteq> Inl e" for e
    unfolding multi_criteria_dijkstra_def
    by (rule dijkstra_loop_no_error[OF cl wt s frontier_ok_init])
  moreover from bound[OF q kq] have "?r \<noteq> Inr (Infinity, p)" for p by simp
  ultimately obtain w p where r: "?r = Inr (Fin w, p)"
    by (cases ?r) (auto, metis weight.exhaust)
  from dijkstra_loop_sound[OF frontier_ok_init, of g d a b s w p] r
  have p: "is_path g s d p" "path_weight g a b p = Some w" "distinct p"
    by (simp_all add: multi_criteria_dijkstra_def)
  have "\<exists>k. path_weight g a b q' = Some k \<and> w \<le> k" if q': "is_path g s d q'" for q'
  proof -
    from q' walk_path_weight[OF wt, of q' a b] obtain k where k: "path_weight g a b q' = Some k"
      by (auto simp: is_path_def)
    with bound[OF q' k] r show ?thesis by simp
  qed
  with r p show ?thesis by blast
qed


section \<open>Validation: counting routes and checking attributes\<close>

lemma no_routes_number_of_edges: "no_routes g \<Longrightarrow> number_of_edges g = 0"
proof -
  assume "no_routes g"
  then have "\<forall>e \<in> set g. degree e = 0" by (auto simp: no_routes_def degree_def)
  then have "sum_list (map degree g) = 0" by simp
  then show ?thesis unfolding number_of_edges_def by (simp only: div_0)
qed

lemma two_members_sum_list:
  fixes f :: "'a \<Rightarrow> nat"
  shows "x \<in> set xs \<Longrightarrow> y \<in> set xs \<Longrightarrow> x \<noteq> y \<Longrightarrow> f x + f y \<le> sum_list (map f xs)"
proof (induction xs)
  case Nil
  then show ?case by simp
next
  case (Cons z zs)
  have mem: "f v \<le> sum_list (map f zs)" if "v \<in> set zs" for v
    using that by (simp add: member_le_sum_list)
  from Cons.prems consider "x = z" "y \<in> set zs" | "y = z" "x \<in> set zs" | "x \<in> set zs" "y \<in> set zs"
    by auto
  then show ?case
  proof cases
    case 1
    with mem[of y] show ?thesis by simp
  next
    case 2
    with mem[of x] show ?thesis by simp
  next
    case 3
    with Cons.IH Cons.prems(3) show ?thesis by simp
  qed
qed

lemma routes_number_of_edges:
  assumes sym: "symmetric_graph g" and r: "\<not> no_routes g"
  shows "number_of_edges g \<noteq> 0"
proof -
  from r obtain u nbrs where u: "(u, nbrs) \<in> set g" "nbrs \<noteq> []"
    by (auto simp: no_routes_def)
  then obtain v d where v: "(v, d) \<in> set nbrs" by (cases nbrs) auto
  have "2 \<le> sum_list (map degree g)"
  proof (cases "v = u")
    case True
    with v have "u \<in> set (map fst nbrs)" by force
    with u(2) have "2 \<le> degree (u, nbrs)" by (cases nbrs) (auto simp: degree_def)
    also from u(1) have "\<dots> \<le> sum_list (map degree g)" by (simp add: member_le_sum_list)
    finally show ?thesis .
  next
    case False
    from sym u(1) v have "get_edge_data g v u = Some d"
      by (fastforce simp: symmetric_graph_def)
    then obtain l where l: "(v, l) \<in> set g" "(u, d) \<in> set l"
      by (auto simp: get_edge_data_def split: option.splits dest!: map_of_SomeD)
    from l(2) have "1 \<le> degree (v, l)" by (cases l) (auto simp: degree_def)
    moreover from u(2) have "1 \<le> degree (u, nbrs)" by (cases nbrs) (auto simp: degree_def)
    moreover from False have "(u, nbrs) \<noteq> (v, l)" by simp
    ultimately show ?thesis
      using two_members_sum_list[OF u(1) l(1), of degree] by simp
  qed
  then show ?thesis by (simp add: number_of_edges_def)
qed

lemma edges_from_member:
  "(n, nbr, dd) \<in> set (edges_from seen g) \<Longrightarrow> \<exists>nbrs. (n, nbrs) \<in> set g \<and> (nbr, dd) \<in> set nbrs"
  by (induction seen g rule: edges_from.induct) auto

lemma check_edges_None:
  "(\<And>u v d. (u, v, d) \<in> set es \<Longrightarrow>
        has_key ''time'' d \<and> has_key ''cost'' d \<and> has_key ''distance'' d)
   \<Longrightarrow> check_edges es = None"
  by (induction es rule: check_edges.induct) auto

lemma fully_attributed_check: "fully_attributed g \<Longrightarrow> check_edges (edges g) = None"
proof (rule check_edges_None)
  fix u v d
  assume fa: "fully_attributed g" and "(u, v, d) \<in> set (edges g)"
  then obtain nbrs where "(u, nbrs) \<in> set g" "(v, d) \<in> set nbrs"
    unfolding edges_def by (auto dest: edges_from_member)
  with fa show "has_key ''time'' d \<and> has_key ''cost'' d \<and> has_key ''distance'' d"
    by (fastforce simp: fully_attributed_def)
qed

section \<open>The iteration budget suffices\<close>

lemma push_neighbors_length:
  "push_neighbors g a b V c n path xs pq = Inr pq2 \<Longrightarrow> length pq2 \<le> length pq + length xs"
proof (induction xs arbitrary: pq)
  case Nil
  then show ?case by simp
next
  case (Cons x xs)
  show ?case
  proof (cases "x \<in> V")
    case True
    with Cons.prems have "push_neighbors g a b V c n path xs pq = Inr pq2" by simp
    from Cons.IH[OF this] show ?thesis by simp
  next
    case False
    with Cons.prems obtain w where
      "push_neighbors g a b V c n path xs (heappush pq (c + w, x, path)) = Inr pq2"
      by (auto split: sum.splits)
    from Cons.IH[OF this] show ?thesis by (simp add: heappush_def)
  qed
qed

lemma sum_list_filter_insert:
  "distinct xs \<Longrightarrow> n \<in> set xs \<Longrightarrow> n \<notin> V \<Longrightarrow>
   sum_list (map f (filter (\<lambda>x. x \<notin> insert n V) xs)) + f n
     = (sum_list (map f (filter (\<lambda>x. x \<notin> V) xs)) :: nat)"
proof (induction xs)
  case Nil
  then show ?case by simp
next
  case (Cons x xs)
  show ?case
  proof (cases "x = n")
    case True
    with Cons.prems have "n \<notin> set xs" by simp
    then have "filter (\<lambda>x. x \<notin> insert n V) xs = filter (\<lambda>x. x \<notin> V) xs"
      by (intro filter_cong) auto
    with True Cons.prems show ?thesis by simp
  next
    case False
    with Cons show ?thesis by auto
  qed
qed

lemma pending_insert:
  "n \<in> set (nodes g) \<Longrightarrow> n \<notin> V \<Longrightarrow> pending g (insert n V) + out_degree g n = pending g V"
  unfolding pending_def by (rule sum_list_filter_insert) simp_all

lemma neighbors_out_degree:
  "neighbors g n = Inr nbrs \<Longrightarrow> length nbrs = out_degree g n \<and> n \<in> set (nodes g)"
  by (auto simp: neighbors_def out_degree_def nodes_def split: option.splits
           dest!: map_of_SomeD intro: rev_image_eqI)

lemma dijkstra_loop_bounded_enough:
  "length pq + pending g V \<le> n \<Longrightarrow>
   dijkstra_loop_bounded n g d a b pq V = Some (dijkstra_loop g d a b pq V)"
proof (induction n arbitrary: pq V)
  case 0
  then show ?case by (simp add: dijkstra_loop.simps)
next
  case (Suc n)
  show ?case
  proof (cases "pq = []")
    case True
    then show ?thesis by (simp add: dijkstra_loop.simps)
  next
    case False
    obtain c x p where m: "Min (set pq) = (c, x, p)" by (cases "Min (set pq)") auto
    then have hp: "heappop pq = ((c, x, p), remove1 (c, x, p) pq)" by (simp add: heappop_def)
    from Min_entry_in[OF False m] have len: "Suc (length (remove1 (c, x, p) pq)) = length pq"
      using False by (simp add: length_remove1 Suc_pred)
    show ?thesis
    proof (cases "x \<in> V")
      case True
      from len Suc.prems have "length (remove1 (c, x, p) pq) + pending g V \<le> n" by simp
      from Suc.IH[OF this] False hp True show ?thesis
        by (subst dijkstra_loop.simps) simp
    next
      case xV: False
      show ?thesis
      proof (cases "neighbors g x")
        case (Inl e)
        with False hp xV show ?thesis by (subst dijkstra_loop.simps) simp
      next
        case (Inr nbrs)
        show ?thesis
        proof (cases "push_neighbors g a b (insert x V) c x (p @ [x]) nbrs (remove1 (c, x, p) pq)")
          case e: (Inl e)
          with False hp xV Inr show ?thesis by (subst dijkstra_loop.simps) simp
        next
          case pq2: (Inr pq2)
          from push_neighbors_length[OF pq2] neighbors_out_degree[OF Inr]
            pending_insert[of x g V] xV len Suc.prems
          have "length pq2 + pending g (insert x V) \<le> n" by simp
          from Suc.IH[OF this] False hp xV Inr pq2 show ?thesis
            by (subst dijkstra_loop.simps) simp
        qed
      qed
    qed
  qed
qed

section \<open>Networks built by \<open>add_edge\<close>\<close>

text \<open>Every network built from the empty graph by \<^verbatim>\<open>add_edge\<close> has its neighbours
  among its stops, and non-negative weights when the given times and costs are.\<close>

lemma map_entry_keys: "map fst (AList.map_entry k f g) = map fst g"
  by (induction g) auto

lemma map_entry_member:
  "(x, l) \<in> set (AList.map_entry k f g) \<Longrightarrow>
     (x, l) \<in> set g \<or> (\<exists>l0. (k, l0) \<in> set g \<and> x = k \<and> l = f l0)"
  by (induction g) (auto split: if_splits)

lemma update_member:
  "(y, d') \<in> set (AList.update v d l) \<Longrightarrow> (y, d') \<in> set l \<or> (y, d') = (v, d)"
  by (induction l) (auto split: if_splits)

lemma has_node_set_adj: "has_node (set_adj u v d g) n = has_node g n"
  by (simp add: has_node_def nodes_def set_adj_def map_entry_keys)

lemma has_node_add_node: "has_node (add_node n g) m = (m = n \<or> has_node g m)"
  by (auto simp: add_node_def has_node_def nodes_def)

lemma closed_graph_add_node: "closed_graph g \<Longrightarrow> closed_graph (add_node n g)"
  unfolding closed_graph_def add_node_def
  by (auto simp: has_node_def nodes_def)

lemma closed_graph_set_adj:
  assumes "closed_graph g" "has_node g v"
  shows "closed_graph (set_adj u v d g)"
  unfolding closed_graph_def
proof (intro ballI, clarify)
  fix x l y d'
  assume x: "(x, l) \<in> set (set_adj u v d g)" and y: "(y, d') \<in> set l"
  from map_entry_member[OF x[unfolded set_adj_def]]
  consider "(x, l) \<in> set g" | l0 where "(u, l0) \<in> set g" "l = AList.update v d l0"
    by blast
  then have "has_node g y"
  proof cases
    case 1
    with assms(1) y show ?thesis by (fastforce simp: closed_graph_def)
  next
    case 2
    with y update_member[of y d' v d l0] have "(y, d') \<in> set l0 \<or> y = v" by auto
    with 2 assms show ?thesis by (fastforce simp: closed_graph_def)
  qed
  then show "has_node (set_adj u v d g) y" by (simp add: has_node_set_adj)
qed

lemma closed_graph_add_edge: "closed_graph g \<Longrightarrow> closed_graph (add_edge u v attr g)"
  unfolding add_edge_def Let_def
  by (intro closed_graph_set_adj closed_graph_add_node)
     (simp_all add: has_node_set_adj has_node_add_node)

lemma closed_graph_empty: "closed_graph []"
  by (simp add: closed_graph_def)

lemma closed_graph_fold_add_edge:
  "closed_graph g \<Longrightarrow> closed_graph (fold (\<lambda>(u, v, attr). add_edge u v attr) rs g)"
  by (induction rs arbitrary: g) (auto simp: closed_graph_add_edge)


lemma nonneg_weights_iff:
  "nonneg_weights g = (\<forall>(u, nbrs) \<in> set g. \<forall>(v, d) \<in> set nbrs. nonneg_data d)"
  by (simp add: nonneg_weights_def nonneg_data_def)

lemma nonneg_weights_add_node: "nonneg_weights g \<Longrightarrow> nonneg_weights (add_node n g)"
  unfolding nonneg_weights_iff add_node_def by auto

lemma nonneg_weights_set_adj:
  assumes "nonneg_weights g" "nonneg_data d"
  shows "nonneg_weights (set_adj u v d g)"
  unfolding nonneg_weights_iff
proof (intro ballI, clarify)
  fix x l y d'
  assume x: "(x, l) \<in> set (set_adj u v d g)" and y: "(y, d') \<in> set l"
  from map_entry_member[OF x[unfolded set_adj_def]]
  consider "(x, l) \<in> set g" | l0 where "(u, l0) \<in> set g" "l = AList.update v d l0"
    by blast
  then show "nonneg_data d'"
  proof cases
    case 1
    with assms(1) y show ?thesis by (fastforce simp: nonneg_weights_iff)
  next
    case 2
    with y update_member[of y d' v d l0] have "(y, d') \<in> set l0 \<or> d' = d" by auto
    with 2 assms show ?thesis by (fastforce simp: nonneg_weights_iff)
  qed
qed

lemma nonneg_weights_add_edge:
  assumes "nonneg_weights g" "0 \<le> time" "0 \<le> cost"
  shows "nonneg_weights
           (add_edge u v [(''time'', time), (''cost'', cost), (''distance'', distance)] g)"
  unfolding add_edge_def Let_def
  by (intro nonneg_weights_set_adj nonneg_weights_add_node assms(1))
     (simp_all add: nonneg_data_def update_conv' assms)


lemma built_network_wellformed:
  assumes "closed_graph g" "nonneg_weights g"
    and "\<forall>(u, v, time, cost, distance) \<in> set rs. 0 \<le> time \<and> 0 \<le> cost"
  shows "closed_graph
           (fold (\<lambda>(u, v, time, cost, distance).
                    add_edge u v [(''time'', time), (''cost'', cost), (''distance'', distance)])
                 rs g) \<and>
         nonneg_weights
           (fold (\<lambda>(u, v, time, cost, distance).
                    add_edge u v [(''time'', time), (''cost'', cost), (''distance'', distance)])
                 rs g)"
  using assms
proof (induction rs arbitrary: g)
  case Nil
  then show ?case by simp
next
  case (Cons r rs)
  obtain u v time cost distance where r: "r = (u, v, time, cost, distance)" by (cases r) auto
  let ?g = "add_edge u v [(''time'', time), (''cost'', cost), (''distance'', distance)] g"
  from Cons.prems r have "closed_graph ?g" "nonneg_weights ?g"
    by (auto intro: closed_graph_add_edge nonneg_weights_add_edge)
  from Cons.IH[OF this] Cons.prems(3) r show ?case by simp
qed

lemma build_transport_graph_wellformed:
  "closed_graph build_transport_graph \<and> nonneg_weights build_transport_graph"
  unfolding build_transport_graph_def
  by (rule built_network_wellformed) (simp_all add: closed_graph_def nonneg_weights_def routes_def)

text \<open>It also keeps the keys unique and the adjacency symmetric.\<close>

lemma keys_distinct_add_node: "keys_distinct g \<Longrightarrow> keys_distinct (add_node n g)"
  by (auto simp: keys_distinct_def add_node_def has_node_def nodes_def)

lemma keys_distinct_set_adj: "keys_distinct g \<Longrightarrow> keys_distinct (set_adj u v d g)"
  unfolding keys_distinct_def set_adj_def
  by (auto simp: map_entry_keys distinct_update dest!: map_entry_member)

lemma get_edge_data_add_node: "get_edge_data (add_node n g) x y = get_edge_data g x y"
  by (auto simp: get_edge_data_def add_node_def has_node_iff map_add_def split: option.splits)

lemma get_edge_data_set_adj:
  "get_edge_data (set_adj u v d g) x y =
     (if x = u \<and> has_node g u \<and> y = v then Some d else get_edge_data g x y)"
  by (auto simp: get_edge_data_def set_adj_def map_of_map_entry update_conv' has_node_iff
           split: option.splits)

lemma symmetric_graph_lookup:
  assumes "keys_distinct g"
  shows "symmetric_graph g \<longleftrightarrow>
           (\<forall>x y d. get_edge_data g x y = Some d \<longrightarrow> get_edge_data g y x = Some d)"
proof
  assume sym: "symmetric_graph g"
  show "\<forall>x y d. get_edge_data g x y = Some d \<longrightarrow> get_edge_data g y x = Some d"
  proof (intro allI impI)
    fix x y d
    assume "get_edge_data g x y = Some d"
    from get_edge_dataD[OF this] obtain nbrs where "(x, nbrs) \<in> set g" "(y, d) \<in> set nbrs"
      by blast
    with sym show "get_edge_data g y x = Some d" by (fastforce simp: symmetric_graph_def)
  qed
next
  assume look: "\<forall>x y d. get_edge_data g x y = Some d \<longrightarrow> get_edge_data g y x = Some d"
  show "symmetric_graph g"
    unfolding symmetric_graph_def
  proof (intro ballI, clarify)
    fix u nbrs v d
    assume u: "(u, nbrs) \<in> set g" and v: "(v, d) \<in> set nbrs"
    from assms u have "map_of g u = Some nbrs" by (simp add: keys_distinct_def)
    moreover from assms u v have "map_of nbrs v = Some d"
      by (fastforce simp: keys_distinct_def)
    ultimately have "get_edge_data g u v = Some d" by (simp add: get_edge_data_def)
    with look show "get_edge_data g v u = Some d" by blast
  qed
qed

lemma keys_distinct_add_edge: "keys_distinct g \<Longrightarrow> keys_distinct (add_edge u v attr g)"
  unfolding add_edge_def Let_def
  by (intro keys_distinct_set_adj keys_distinct_add_node)

lemma get_edge_data_add_edge:
  "\<exists>d'. \<forall>x y. get_edge_data (add_edge u v attr g) x y =
     (if x = v \<and> y = u \<or> x = u \<and> y = v then Some d' else get_edge_data g x y)"
proof -
  define g1 where "g1 = add_node v (add_node u g)"
  define d' where "d' = fold (\<lambda>(k, x). AList.update k x) attr
                          (case get_edge_data g1 u v of None \<Rightarrow> [] | Some d \<Rightarrow> d)"
  have g: "add_edge u v attr g = set_adj v u d' (set_adj u v d' g1)"
    by (simp add: add_edge_def Let_def g1_def d'_def)
  have n: "has_node g1 u" "has_node g1 v" by (simp_all add: g1_def has_node_add_node)
  have e: "get_edge_data g1 x y = get_edge_data g x y" for x y
    by (simp add: g1_def get_edge_data_add_node)
  have "get_edge_data (add_edge u v attr g) x y =
     (if x = v \<and> y = u \<or> x = u \<and> y = v then Some d' else get_edge_data g x y)" for x y
  proof -
    have 1: "get_edge_data (set_adj u v d' g1) x y =
               (if x = u \<and> y = v then Some d' else get_edge_data g x y)"
      by (simp only: get_edge_data_set_adj n e simp_thms)
    have 2: "get_edge_data (add_edge u v attr g) x y =
               (if x = v \<and> y = u then Some d' else get_edge_data (set_adj u v d' g1) x y)"
      unfolding g by (simp only: get_edge_data_set_adj has_node_set_adj n simp_thms)
    show ?thesis
    proof (cases "x = v \<and> y = u")
      case True
      then show ?thesis unfolding 2 by (simp only: if_True simp_thms)
    next
      case False
      then show ?thesis unfolding 2 1 by (simp only: if_False simp_thms)
    qed
  qed
  then have "\<forall>x y. get_edge_data (add_edge u v attr g) x y =
     (if x = v \<and> y = u \<or> x = u \<and> y = v then Some d' else get_edge_data g x y)"
    by (intro allI)
  then show ?thesis by (rule exI)
qed

lemma symmetric_graph_add_edge:
  assumes kd: "keys_distinct g" and sym: "symmetric_graph g"
  shows "symmetric_graph (add_edge u v attr g)"
proof -
  have look: "get_edge_data g y x = Some d" if "get_edge_data g x y = Some d" for x y d
    using symmetric_graph_lookup[OF kd] sym that by blast
  from get_edge_data_add_edge[of u v attr g] obtain d' where
    e: "\<And>x y. get_edge_data (add_edge u v attr g) x y =
          (if x = v \<and> y = u \<or> x = u \<and> y = v then Some d' else get_edge_data g x y)"
    by blast
  have "get_edge_data (add_edge u v attr g) y x = Some d"
    if h: "get_edge_data (add_edge u v attr g) x y = Some d" for x y d
  proof (cases "x = v \<and> y = u \<or> x = u \<and> y = v")
    case True
    then have sw: "y = v \<and> x = u \<or> y = u \<and> x = v" by blast
    from h True have "d = d'" unfolding e[of x y] by (simp only: if_True option.inject)
    then show ?thesis unfolding e[of y x] using sw by (simp only: if_True)
  next
    case False
    then have sw: "\<not> (y = v \<and> x = u \<or> y = u \<and> x = v)" by blast
    from h False have "get_edge_data g x y = Some d"
      unfolding e[of x y] by (simp only: if_False)
    from look[OF this] show ?thesis unfolding e[of y x] using sw by (simp only: if_False)
  qed
  then show ?thesis
    using symmetric_graph_lookup[OF keys_distinct_add_edge[OF kd, of u v attr]] by blast
qed

lemma built_network_symmetric:
  "keys_distinct g \<Longrightarrow> symmetric_graph g \<Longrightarrow>
   keys_distinct (fold (\<lambda>(u, v, time, cost, distance).
                    add_edge u v [(''time'', time), (''cost'', cost), (''distance'', distance)])
                 rs g) \<and>
   symmetric_graph (fold (\<lambda>(u, v, time, cost, distance).
                    add_edge u v [(''time'', time), (''cost'', cost), (''distance'', distance)])
                 rs g)"
proof (induction rs arbitrary: g)
  case Nil
  then show ?case by simp
next
  case (Cons r rs)
  obtain u v time cost distance where r: "r = (u, v, time, cost, distance)" by (cases r) auto
  let ?g = "add_edge u v [(''time'', time), (''cost'', cost), (''distance'', distance)] g"
  from Cons.prems have "keys_distinct ?g" "symmetric_graph ?g"
    by (auto intro: keys_distinct_add_edge symmetric_graph_add_edge)
  from Cons.IH[OF this] r show ?case by simp
qed

section \<open>Results of the search, the fixture and the two-island network\<close>

lemma dijkstra_same_stop: "multi_criteria_dijkstra g s s a b = Inr (Fin 0, [s])"
  by (simp add: multi_criteria_dijkstra_def dijkstra_loop.simps heappop_def)

lemma dijkstra_result_path:
  assumes "multi_criteria_dijkstra g s d a b = Inr (w, p)" "p \<noteq> []"
  shows "\<exists>k. w = Fin k \<and> path_weight g a b p = Some k \<and> is_path g s d p \<and> distinct p"
proof (cases w)
  case (Fin k)
  with assms dijkstra_loop_sound[OF frontier_ok_init, of g d a b s k p] show ?thesis
    by (simp add: multi_criteria_dijkstra_def)
next
  case Infinity
  with assms dijkstra_loop_unreachable_path[of g d a b "[(0, s, [])]" "{}" p] show ?thesis
    by (simp add: multi_criteria_dijkstra_def)
qed

lemma fixture_closed: "closed_graph build_transport_graph"
  by (simp add: build_transport_graph_wellformed)

lemma fixture_nonneg: "nonneg_weights build_transport_graph"
  by (simp add: build_transport_graph_wellformed)

lemma fixture_result:
  "multi_criteria_dijkstra build_transport_graph ''A'' ''F'' 1 0
     = Inr (Fin 33, [''A'', ''C'', ''E'', ''F''])"
  by code_simp


section \<open>The float arithmetic and the float search at known values\<close>

text \<open>The doubles nearest to \<open>0.1\<close> and to \<open>0.1 + 0.2\<close>, the absorption of a small
  term by a large float, and the conversion of an int that is not a float.\<close>

lemma float_tenth: "round_double (1 / 10) = Finite (3602879701896397 / 36028797018963968)"
  by code_simp

lemma float_sum_tenths:
  "float_add (round_double (1 / 10)) (round_double (2 / 10))
     = Finite (1351079888211149 / 4503599627370496)"
  by code_simp

lemma float_absorbs_one:
  "float_add (Finite 10000000000000000) (Finite 1) = Finite 10000000000000000"
  by code_simp

lemma float_of_big_int: "float_of_int (2 ^ 53 + 1) = Inr (Finite (2 ^ 53))"
  by code_simp

text \<open>On the fixture with integer coefficients the search on numbers returns what the
  search on integers returns.\<close>

lemma fixture_result_num:
  "multi_criteria_dijkstra_num (int_network build_transport_graph) ''A'' ''F'' (PyInt 1) (PyInt 0)
     = Some (Inr (PyInt 33, [''A'', ''C'', ''E'', ''F'']))"
  by code_simp

section \<open>The specified properties\<close>

text \<open>
  C1, as amended: on a network (its neighbours are stops) whose routes all carry
  non-negative integer time and cost, with non-negative integer coefficients and a
  destination reachable from a source of the network, the search returns a path from source
  to destination together with its weight, and no path from source to destination is
  lighter.
\<close>

theorem dijkstra_returns_minimum:
  fixes g :: "('n::linorder) graph"
  assumes "closed_graph g" and "nonneg_weights g" and "0 \<le> alpha" and "0 \<le> beta"
    and "has_node g source" and "has_node g destination"
    and "is_path g source destination q"
  shows "\<exists>w p. multi_criteria_dijkstra g source destination alpha beta = Inr (Fin w, p) \<and>
            is_path g source destination p \<and> path_weight g alpha beta p = Some w \<and>
            (\<forall>q'. is_path g source destination q'
                  \<longrightarrow> (\<exists>k. path_weight g alpha beta q' = Some k \<and> w \<le> k))"
  using dijkstra_optimal[OF assms(1-5,7)] by blast

theorem dijkstra_returns_minimum_witness:
  "closed_graph build_transport_graph \<and> nonneg_weights build_transport_graph \<and>
   has_node build_transport_graph ''A'' \<and> has_node build_transport_graph ''F'' \<and>
   is_path build_transport_graph ''A'' ''F'' [''A'', ''B'', ''D'', ''F''] \<and>
   (\<exists>w p. multi_criteria_dijkstra build_transport_graph ''A'' ''F'' 1 0 = Inr (Fin w, p) \<and>
          is_path build_transport_graph ''A'' ''F'' p \<and>
          path_weight build_transport_graph 1 0 p = Some w \<and> w \<le> 37)"
proof -
  have h1: "closed_graph build_transport_graph" by (rule fixture_closed)
  have h2: "nonneg_weights build_transport_graph" by (rule fixture_nonneg)
  have h3: "has_node build_transport_graph ''A''" by code_simp
  have h4: "has_node build_transport_graph ''F''" by code_simp
  have h5: "is_path build_transport_graph ''A'' ''F'' [''A'', ''B'', ''D'', ''F'']" by code_simp
  have k: "path_weight build_transport_graph 1 0 [''A'', ''B'', ''D'', ''F''] = Some 37"
    by code_simp
  from dijkstra_returns_minimum[OF h1 h2 _ _ h3 h4 h5, of 1 0] obtain w p where
    r: "multi_criteria_dijkstra build_transport_graph ''A'' ''F'' 1 0 = Inr (Fin w, p)"
       "is_path build_transport_graph ''A'' ''F'' p"
       "path_weight build_transport_graph 1 0 p = Some w"
    and m: "\<forall>q'. is_path build_transport_graph ''A'' ''F'' q'
              \<longrightarrow> (\<exists>k. path_weight build_transport_graph 1 0 q' = Some k \<and> w \<le> k)"
    by auto
  from m h5 k have "w \<le> 37" by fastforce
  with r h1 h2 h3 h4 h5 show ?thesis by blast
qed

text \<open>The claim as stated, for every \<open>alpha \<ge> 0\<close>, fails with a float coefficient.  On
  \<open>rounding_network\<close>, whose attributes are non-negative, with \<open>alpha = 1.0\<close> and
  \<open>beta = 0\<close>, the search from \<open>S\<close> to \<open>T\<close> returns the weight \<open>1e16\<close> and the
  detour, which weighs \<open>10^16 + 3\<close>, although the direct route weighs \<open>10^16 + 2\<close>: each
  \<open>1e16 + 1.0\<close> rounds back to \<open>1e16\<close>.\<close>

theorem float_search_not_minimal:
  "nonneg_weights_num rounding_network \<and>
   nonneg_number (PyFloat (Finite 1)) \<and> nonneg_number (PyInt 0) \<and>
   has_node rounding_network ''S'' \<and> has_node rounding_network ''T'' \<and>
   is_path rounding_network ''S'' ''T'' [''S'', ''T''] \<and>
   exact_path_weight rounding_network (PyFloat (Finite 1)) (PyInt 0) [''S'', ''T'']
     = Some 10000000000000002 \<and>
   multi_criteria_dijkstra_num rounding_network ''S'' ''T'' (PyFloat (Finite 1)) (PyInt 0)
     = Some (Inr (PyFloat (Finite 10000000000000000), [''S'', ''B'', ''C'', ''D'', ''T''])) \<and>
   exact_path_weight rounding_network (PyFloat (Finite 1)) (PyInt 0)
       [''S'', ''B'', ''C'', ''D'', ''T'']
     = Some 10000000000000003"
  by code_simp

text \<open>
  C2, as amended: with integer coefficients and integer time and cost attributes, whenever
  the search returns a non-empty path, the returned weight is the sum of
  \<open>alpha \<cdot> time + beta \<cdot> cost\<close> over the routes between consecutive stops of that path.
\<close>

theorem weight_matches_path:
  assumes "multi_criteria_dijkstra g source destination alpha beta = Inr (w, p)" and "p \<noteq> []"
  shows "\<exists>k. w = Fin k \<and> path_weight g alpha beta p = Some k"
  using dijkstra_result_path[OF assms] by blast

theorem weight_matches_path_witness:
  "multi_criteria_dijkstra build_transport_graph ''A'' ''F'' 1 0
     = Inr (Fin 33, [''A'', ''C'', ''E'', ''F'']) \<and>
   path_weight build_transport_graph 1 0 [''A'', ''C'', ''E'', ''F''] = Some 33"
proof -
  have "[''A'', ''C'', ''E'', ''F''] \<noteq> ([] :: string list)" by simp
  from weight_matches_path[OF fixture_result this] fixture_result show ?thesis
    by (auto simp del: path_weight.simps)
qed

text \<open>The claim as stated, for every \<open>alpha\<close> and \<open>beta\<close>, fails with float
  coefficients.  On \<open>rounding_network\<close> with \<open>alpha = 1.0\<close> and \<open>beta = 0.0\<close> the search
  from \<open>S\<close> to \<open>D\<close> returns the weight \<open>1e16\<close> with a path whose terms sum to
  \<open>10^16 + 2\<close>; added in floats from the far end, the same terms give \<open>10^16 + 2\<close> too.\<close>

theorem float_weight_differs_from_sum:
  "multi_criteria_dijkstra_num rounding_network ''S'' ''D'' (PyFloat (Finite 1)) (PyFloat (Finite 0))
     = Some (Inr (PyFloat (Finite 10000000000000000), [''S'', ''B'', ''C'', ''D''])) \<and>
   num_value (PyFloat (Finite 10000000000000000)) = Some 10000000000000000 \<and>
   exact_path_weight rounding_network (PyFloat (Finite 1)) (PyFloat (Finite 0))
       [''S'', ''B'', ''C'', ''D'']
     = Some 10000000000000002 \<and>
   float_add (Finite 10000000000000000) (float_add (Finite 1) (Finite 1))
     = Finite 10000000000000002"
  by code_simp

text \<open>
  C3: validation answers \<open>(False, "Graph has no nodes")\<close> on a network without stops,
  \<open>(False, "Graph has no edges")\<close> on a network with stops and no routes, and
  \<open>(True, success message)\<close> on a network with routes that all carry time, cost and
  distance; the tests are made in that order and the first failure decides.
\<close>

theorem validate_graph_cases:
  "(nodes g = [] \<longrightarrow> validate_graph g = (False, ''Graph has no nodes'')) \<and>
   (nodes g \<noteq> [] \<and> no_routes g \<longrightarrow> validate_graph g = (False, ''Graph has no edges'')) \<and>
   (symmetric_graph g \<and> \<not> no_routes g \<and> fully_attributed g
      \<longrightarrow> validate_graph g = (True, success_message))"
proof (intro conjI impI)
  assume "nodes g = []"
  then show "validate_graph g = (False, ''Graph has no nodes'')"
    by (simp add: validate_graph_def number_of_nodes_def nodes_def)
next
  assume "nodes g \<noteq> [] \<and> no_routes g"
  then show "validate_graph g = (False, ''Graph has no edges'')"
    by (simp add: validate_graph_def number_of_nodes_def nodes_def no_routes_number_of_edges)
next
  assume h: "symmetric_graph g \<and> \<not> no_routes g \<and> fully_attributed g"
  then have "g \<noteq> []" by (auto simp: no_routes_def)
  moreover from h have "number_of_edges g \<noteq> 0" by (simp add: routes_number_of_edges)
  moreover from h have "check_edges (edges g) = None" by (simp add: fully_attributed_check)
  ultimately show "validate_graph g = (True, success_message)"
    by (simp add: validate_graph_def number_of_nodes_def)
qed

theorem validate_graph_cases_witness:
  "nodes ([] :: string graph) = [] \<and>
   validate_graph [] = (False, ''Graph has no nodes'') \<and>
   nodes (add_node ''A'' []) \<noteq> [] \<and> no_routes (add_node ''A'' []) \<and>
   validate_graph (add_node ''A'' []) = (False, ''Graph has no edges'') \<and>
   symmetric_graph build_transport_graph \<and> \<not> no_routes build_transport_graph \<and>
   fully_attributed build_transport_graph \<and>
   validate_graph build_transport_graph = (True, success_message)"
proof -
  have a: "nodes ([] :: string graph) = []" by code_simp
  have b: "nodes (add_node ''A'' []) \<noteq> [] \<and> no_routes (add_node ''A'' [])" by code_simp
  have c: "symmetric_graph build_transport_graph \<and> \<not> no_routes build_transport_graph \<and>
           fully_attributed build_transport_graph" by code_simp
  from validate_graph_cases[of "[]"] a
  have 1: "validate_graph [] = (False, ''Graph has no nodes'')" by blast
  from validate_graph_cases[of "add_node ''A'' []"] b
  have 2: "validate_graph (add_node ''A'' []) = (False, ''Graph has no edges'')" by blast
  from validate_graph_cases[of build_transport_graph] c
  have 3: "validate_graph build_transport_graph = (True, success_message)" by blast
  from a b c 1 2 3 show ?thesis by blast
qed

text \<open>
  C4: for a stop \<open>s\<close> of the network, the search from \<open>s\<close> to \<open>s\<close> returns weight 0 and
  the single-stop path \<open>[s]\<close>, whatever the coefficients.
\<close>

theorem source_is_destination:
  "has_node g s \<Longrightarrow> multi_criteria_dijkstra g s s alpha beta = Inr (Fin 0, [s])"
  by (rule dijkstra_same_stop)

theorem source_is_destination_witness:
  "has_node build_transport_graph ''D'' \<and>
   multi_criteria_dijkstra build_transport_graph ''D'' ''D'' 1 0 = Inr (Fin 0, [''D''])"
proof -
  have h: "has_node build_transport_graph ''D''" by code_simp
  from source_is_destination[OF h] h show ?thesis by blast
qed



text \<open>
  C6, as amended: a call whose source is not a stop of the network and differs from the
  destination fails, with the error that the neighbour lookup raises for an unknown stop.
\<close>

theorem missing_source_fails:
  "\<not> has_node g source \<Longrightarrow> source \<noteq> destination \<Longrightarrow>
   multi_criteria_dijkstra g source destination alpha beta = Inl NetworkXError"
  by (simp add: multi_criteria_dijkstra_def dijkstra_loop.simps heappop_def neighbors_def
                has_node_iff)

theorem missing_source_fails_witness:
  "\<not> has_node build_transport_graph ''Z'' \<and> ''Z'' \<noteq> ''A'' \<and>
   multi_criteria_dijkstra build_transport_graph ''Z'' ''A'' 1 0 = Inl NetworkXError"
proof -
  have h: "\<not> has_node build_transport_graph ''Z''" by code_simp
  have n: "''Z'' \<noteq> ''A''" by simp
  from missing_source_fails[OF h n] h n show ?thesis by blast
qed

text \<open>The claim as stated fails for a missing destination: the search from the stop
  \<open>A\<close> of the fixture to the unknown stop \<open>Z\<close> ends without any error, and so does
  the search from \<open>Z\<close> to itself.\<close>

theorem missing_destination_no_error:
  "\<not> has_node build_transport_graph ''Z'' \<and>
   multi_criteria_dijkstra build_transport_graph ''A'' ''Z'' 1 0 = Inr (Infinity, []) \<and>
   multi_criteria_dijkstra build_transport_graph ''Z'' ''Z'' 1 0 = Inr (Fin 0, [''Z''])"
  by code_simp

text \<open>
  C7: on the network built from the eight fixture routes, the time-optimal search from
  \<open>A\<close> to \<open>F\<close> returns weight 33 with the path \<open>A, C, E, F\<close>; that path has weight 33
  and no path from \<open>A\<close> to \<open>F\<close> takes less time (the path \<open>A, C, D, E, F\<close> takes 37).
\<close>

theorem fixture_time_optimal:
  "multi_criteria_dijkstra build_transport_graph ''A'' ''F'' 1 0
     = Inr (Fin 33, [''A'', ''C'', ''E'', ''F'']) \<and>
   path_weight build_transport_graph 1 0 [''A'', ''C'', ''E'', ''F''] = Some 33 \<and>
   path_weight build_transport_graph 1 0 [''A'', ''C'', ''D'', ''E'', ''F''] = Some 37 \<and>
   (\<forall>q. is_path build_transport_graph ''A'' ''F'' q
        \<longrightarrow> (\<exists>k. path_weight build_transport_graph 1 0 q = Some k \<and> 33 \<le> k))"
proof -
  have a: "has_node build_transport_graph ''A''" by code_simp
  have q: "is_path build_transport_graph ''A'' ''F'' [''A'', ''C'', ''E'', ''F'']" by code_simp
  from dijkstra_optimal[OF fixture_closed fixture_nonneg _ _ a q, of 1 0] fixture_result
  have "\<forall>q. is_path build_transport_graph ''A'' ''F'' q
        \<longrightarrow> (\<exists>k. path_weight build_transport_graph 1 0 q = Some k \<and> 33 \<le> k)"
    by auto
  moreover have "path_weight build_transport_graph 1 0 [''A'', ''C'', ''E'', ''F''] = Some 33"
    by code_simp
  moreover have "path_weight build_transport_graph 1 0 [''A'', ''C'', ''D'', ''E'', ''F''] = Some 37"
    by code_simp
  ultimately show ?thesis using fixture_result by blast
qed

theorem fixture_time_optimal_witness:
  "is_path build_transport_graph ''A'' ''F'' [''A'', ''B'', ''D'', ''E'', ''F''] \<and>
   path_weight build_transport_graph 1 0 [''A'', ''B'', ''D'', ''E'', ''F''] = Some 36 \<and>
   (33::int) \<le> 36"
proof -
  have q: "is_path build_transport_graph ''A'' ''F'' [''A'', ''B'', ''D'', ''E'', ''F'']"
    by code_simp
  have k: "path_weight build_transport_graph 1 0 [''A'', ''B'', ''D'', ''E'', ''F''] = Some 36"
    by code_simp
  from fixture_time_optimal q k have "(33::int) \<le> 36" by fastforce
  with q k show ?thesis by blast
qed

text \<open>
  C8: the search terminates on every network, source, destination and pair of coefficients:
  the loop, cut off after a number of iterations fixed by the network alone (one per
  adjacency entry, and one for the seed), has returned, with the result of the search.
\<close>

theorem dijkstra_terminates:
  "multi_criteria_dijkstra_bounded (iteration_bound g + extra) g source destination alpha beta
     = Some (multi_criteria_dijkstra g source destination alpha beta)"
  unfolding multi_criteria_dijkstra_bounded_def multi_criteria_dijkstra_def
  by (rule dijkstra_loop_bounded_enough) (simp add: iteration_bound_def)

theorem dijkstra_terminates_witness:
  "multi_criteria_dijkstra_bounded 17 build_transport_graph ''A'' ''F'' 0 0
     = Some (Inr (Fin 0, [''A'', ''B'', ''D'', ''F'']))"
proof -
  have "iteration_bound build_transport_graph + 0 = 17" by code_simp
  moreover have "multi_criteria_dijkstra build_transport_graph ''A'' ''F'' 0 0
                  = Inr (Fin 0, [''A'', ''B'', ''D'', ''F''])" by code_simp
  ultimately show ?thesis
    using dijkstra_terminates[of build_transport_graph 0 "''A''" "''F''" 0 0] by simp
qed

text \<open>
  C9: a non-empty returned path starts at the source, ends at the destination, joins
  consecutive stops by routes of the network, and visits no stop twice.
\<close>

theorem returned_path_simple:
  assumes "multi_criteria_dijkstra g source destination alpha beta = Inr (w, p)" and "p \<noteq> []"
  shows "hd p = source \<and> last p = destination \<and> walk g p \<and> distinct p"
  using dijkstra_result_path[OF assms] by (auto simp: is_path_def)

theorem returned_path_simple_witness:
  "multi_criteria_dijkstra build_transport_graph ''A'' ''F'' 0 1
     = Inr (Fin 12, [''A'', ''C'', ''E'', ''F'']) \<and>
   hd [''A'', ''C'', ''E'', ''F''] = ''A'' \<and> last [''A'', ''C'', ''E'', ''F''] = ''F'' \<and>
   walk build_transport_graph [''A'', ''C'', ''E'', ''F''] \<and>
   distinct [''A'', ''C'', ''E'', ''F'']"
proof -
  have r: "multi_criteria_dijkstra build_transport_graph ''A'' ''F'' 0 1
             = Inr (Fin 12, [''A'', ''C'', ''E'', ''F''])" by code_simp
  have "[''A'', ''C'', ''E'', ''F''] \<noteq> ([] :: string list)" by simp
  from returned_path_simple[OF r this] r show ?thesis by blast
qed

text \<open>
  C10: for an identifier \<open>s\<close> that is not a stop of the network, the search from \<open>s\<close> to
  \<open>s\<close> still returns weight 0 and the path \<open>[s]\<close>, with no error: the destination test
  comes before any neighbour lookup.
\<close>

theorem absent_stop_self_route:
  "\<not> has_node g s \<Longrightarrow> multi_criteria_dijkstra g s s alpha beta = Inr (Fin 0, [s])"
  by (rule dijkstra_same_stop)

theorem absent_stop_self_route_witness:
  "\<not> has_node build_transport_graph ''Z'' \<and>
   multi_criteria_dijkstra build_transport_graph ''Z'' ''Z'' 1 0 = Inr (Fin 0, [''Z''])"
proof -
  have h: "\<not> has_node build_transport_graph ''Z''" by code_simp
  from absent_stop_self_route[OF h] h show ?thesis by blast
qed

end
